theory Spec2Isabelle
  imports Main "HOL-Library.Word"
begin

unbundle bit_operations_syntax

section \<open>The RF receiver of CUL/clib/rf\_receive.c\<close>

text \<open>
  The file is the pulse demodulator and frame decoder: an edge interrupt fills
  buckets with bits, a timer compare interrupt closes a bucket after a silence,
  and \<open>RfAnalyze_Task\<close> runs the protocol decoders on the oldest closed bucket.

  The embedding follows the C text.  \<open>uint8_t\<close>, \<open>uint16_t\<close> and \<open>uint32_t\<close> are
  words of that width; an expression that C evaluates in \<open>int\<close> after integer
  promotion is evaluated in \<open>int\<close> here and cut back to the width of the variable
  that receives it.  A pointer \<open>bucket_t *b\<close> into \<open>bucket_array\<close> is the index of
  the bucket; module-level variables are the fields of one state record.

  The build that is modelled defines \<open>HAS_IT\<close>, \<open>HAS_TCM97001\<close>, \<open>HAS_REVOLT\<close>,
  \<open>HAS_ESA\<close>, \<open>HAS_TX3\<close> and \<open>HAS_HOERMANN\<close> (every decoder of the dispatch
  list is present) and leaves \<open>HAS_LCD\<close>, \<open>HAS_FASTRF\<close>, \<open>HAS_RF_ROUTER\<close>,
  \<open>HAS_FHT_80b\<close>, \<open>HAS_ASKSIN\<close>, \<open>HAS_MBUS\<close> and \<open>NO_RF_DEBUG\<close> undefined.
  \<open>LONG_PULSE\<close> and \<open>GIRA_MODE\<close> are fields of the build configuration below.
\<close>

type_synonym u8 = "8 word"
type_synonym u16 = "16 word"
type_synonym u32 = "32 word"

subsection \<open>Constants of the headers\<close>

text \<open>
  \<open>board.h\<close> and \<open>rf_receive.h\<close> are not among the sources.  What the code takes
  from them (the sizes, the type tags, the bits of \<open>tx_report\<close>, the repeat window
  and the FHT control codes) is a parameter of the model.  \<open>MAXMSG\<close> is the size of
  the \<open>data\<close>, \<open>obuf\<close> and \<open>robuf\<close> arrays.
\<close>

record config =
  MAXMSG :: nat
  RCV_BUCKETS :: nat
  LONG_PULSE :: bool
  GIRA_MODE :: bool
  TYPE_EM :: u8
  TYPE_HMS :: u8
  TYPE_FHT :: u8
  TYPE_FS20 :: u8
  TYPE_KS300 :: u8
  TYPE_HRM :: u8
  TYPE_ESA :: u8
  TYPE_TX3 :: u8
  TYPE_TCM97001 :: u8
  TYPE_REVOLT :: u8
  TYPE_IT :: u8
  REP_KNOWN :: u8
  REP_REPEATED :: u8
  REP_BITS :: u8
  REP_MONITOR :: u8
  REP_BINTIME :: u8
  REP_RSSI :: u8
  REP_FHTPROTO :: u8
  REP_LCDMON :: u8
  REPTIME :: u32
  TWRAP :: u16
  FHT_ACK :: u8
  FHT_ACK2 :: u8
  FHT_CAN_XMIT :: u8
  FHT_CAN_RCV :: u8
  FHT_START_XMIT :: u8
  FHT_END_XMIT :: u8

text \<open>\<open>#define TSCALE(x) (x/16)\<close>, on the constants the code scales.\<close>

definition TSCALE :: "int \<Rightarrow> int" where
  "TSCALE x = x div 16"

definition TDIFF :: u8 where
  "TDIFF = word_of_int (TSCALE 200)"

definition TDIFFIT :: u8 where
  "TDIFFIT = word_of_int (TSCALE 350)"

definition SILENCE :: u16 where
  "SILENCE = 4000"

abbreviation (input) STATE_RESET :: u8 where "STATE_RESET \<equiv> 0"
abbreviation (input) STATE_INIT :: u8 where "STATE_INIT \<equiv> 1"
abbreviation (input) STATE_SYNC :: u8 where "STATE_SYNC \<equiv> 2"
abbreviation (input) STATE_COLLECT :: u8 where "STATE_COLLECT \<equiv> 3"
abbreviation (input) STATE_HMS :: u8 where "STATE_HMS \<equiv> 4"
abbreviation (input) STATE_ESA :: u8 where "STATE_ESA \<equiv> 5"
abbreviation (input) STATE_REVOLT :: u8 where "STATE_REVOLT \<equiv> 6"
abbreviation (input) STATE_IT :: u8 where "STATE_IT \<equiv> 7"
abbreviation (input) STATE_TCM97001 :: u8 where "STATE_TCM97001 \<equiv> 8"
abbreviation (input) STATE_ITV3 :: u8 where "STATE_ITV3 \<equiv> 9"

text \<open>\<open>_BV(n)\<close> is \<open>1 << n\<close>, stored into a byte.\<close>

definition BV :: "nat \<Rightarrow> u8" where
  "BV n = push_bit n 1"

subsection \<open>Data\<close>

record wave_t =
  hightime :: u8
  lowtime :: u8

text \<open>
  \<open>bucket_t\<close>.  All members are bytes, so the struct has no padding and the
  member \<open>zero\<close> starts at the byte after \<open>data[MAXMSG-1]\<close>.
\<close>

record bucket_t =
  state :: u8
  byteidx :: u8
  sync :: u8
  bitidx :: u8
  data :: "u8 list"
  zero :: wave_t
  one :: wave_t

text \<open>What the display functions \<open>DC\<close>, \<open>DH2\<close>, \<open>DH\<close>, \<open>DU\<close>, \<open>DNL\<close>, \<open>DS_P\<close> are called with.\<close>

datatype out = DC u8 | DH2 u8 | DH u8 nat | DU int nat | DNL | DS_P string

text \<open>
  The module-level variables.  The bit-field struct \<open>packetCheckValues\<close> is three
  booleans.  The statics \<open>hightime\<close> and \<open>lowtime\<close> are \<open>pulse_high\<close> and
  \<open>pulse_low\<close> here (the members of \<open>wave_t\<close> have the names); they hold 16 bits
  and carry 8-bit values when \<open>LONG_PULSE\<close> is off.  \<open>TIMSK1\<close>, \<open>OCR1A\<close> and
  \<open>TCNT1\<close> are the timer registers the code writes, \<open>out_log\<close> the calls of the
  display functions so far.
\<close>

record rf_state =
  tx_report :: u8
  bucket_array :: "bucket_t list"
  bucket_in :: u8
  bucket_out :: u8
  bucket_nrused :: u8
  oby :: u8
  obuf :: "u8 list"
  nibble :: u8
  roby :: u8
  robuf :: "u8 list"
  reptime :: u32
  pulse_high :: u16
  pulse_low :: u16
  isrep :: bool
  isnotrep :: bool
  packageOK :: bool
  TIMSK1 :: u8
  OCR1A :: u16
  TCNT1 :: u16
  out_log :: "out list"

definition bucket_at :: "rf_state \<Rightarrow> nat \<Rightarrow> bucket_t" where
  "bucket_at s i = bucket_array s ! i"

definition put_bucket :: "rf_state \<Rightarrow> nat \<Rightarrow> bucket_t \<Rightarrow> rf_state" where
  "put_bucket s i b = s\<lparr>bucket_array := (bucket_array s)[i := b]\<rparr>"

subsection \<open>reset\_input, addbit, delbit\<close>

text \<open>
  \<open>reset_input\<close>: the compare interrupt is switched off, the bucket the
  interrupt is filling goes back to \<open>STATE_RESET\<close>, \<open>isnotrep\<close> is cleared.
\<close>

definition reset_input :: "rf_state \<Rightarrow> rf_state" where
  "reset_input s =
     (let i = unat (bucket_in s);
          s1 = s\<lparr>TIMSK1 := 0\<rparr>;
          s2 = put_bucket s1 i ((bucket_at s1 i)\<lparr>state := STATE_RESET\<rparr>)
      in s2\<lparr>isnotrep := False\<rparr>)"

text \<open>
  The indices of \<open>b->data\<close> that one call of \<open>addbit\<close> stores to, in the order
  of the stores: \<open>data[byteidx] |= _BV(bitidx)\<close> when the bit is set, and
  \<open>data[++byteidx] = 0\<close> when \<open>bitidx\<close> was 0.
\<close>

definition addbit_stores :: "bucket_t \<Rightarrow> u8 \<Rightarrow> nat list" where
  "addbit_stores b bit_v =
     (if length (data b) \<le> unat (byteidx b) then []
      else (if bit_v \<noteq> 0 then [unat (byteidx b)] else []) @
           (if bitidx b = 0 then [unat (byteidx b + 1)] else []))"

text \<open>
  A store \<open>b->data[i] = v\<close>.  Inside the array it updates the array.  The index
  \<open>MAXMSG\<close>, one past the end, is the address of \<open>b->zero.hightime\<close>, the next
  member of the struct, and that byte is written.  \<open>addbit\<close> stores to no index
  above \<open>MAXMSG\<close>; for such an index the bucket is left as it is.
\<close>

definition data_store :: "bucket_t \<Rightarrow> nat \<Rightarrow> u8 \<Rightarrow> bucket_t" where
  "data_store b i v =
     (if i < length (data b) then b\<lparr>data := (data b)[i := v]\<rparr>
      else if i = length (data b) then b\<lparr>zero := (zero b)\<lparr>hightime := v\<rparr>\<rparr>
      else b)"

definition addbit :: "rf_state \<Rightarrow> nat \<Rightarrow> u8 \<Rightarrow> rf_state" where
  "addbit s i bit_v =
     (let b = bucket_at s i in
      if length (data b) \<le> unat (byteidx b) then reset_input s
      else
        let b1 = (if bit_v \<noteq> 0
                  then data_store b (unat (byteidx b))
                         (data b ! unat (byteidx b) OR BV (unat (bitidx b)))
                  else b)
        in if bitidx b1 = 0
           then let b2 = b1\<lparr>bitidx := 7, byteidx := byteidx b1 + 1\<rparr>
                in put_bucket s i (data_store b2 (unat (byteidx b2)) 0)
           else put_bucket s i (b1\<lparr>bitidx := bitidx b1 - 1\<rparr>))"

definition delbit :: "rf_state \<Rightarrow> nat \<Rightarrow> rf_state" where
  "delbit s i =
     (let b = bucket_at s i in
      if bitidx b = 7
      then put_bucket s i (b\<lparr>bitidx := 0, byteidx := byteidx b - 1\<rparr>)
      else put_bucket s i (b\<lparr>bitidx := bitidx b + 1\<rparr>))"


subsection \<open>Checksums and the parity bit\<close>

text \<open>
  \<open>parity_even_bit\<close> of avr-libc's \<open>util/parity.h\<close>: 1 when the byte has an odd
  number of bits set, and 0 otherwise.
\<close>

definition parity_even_bit :: "u8 \<Rightarrow> u8" where
  "parity_even_bit v = (if odd (length (filter (bit v) [0..<8])) then 1 else 0)"

text \<open>\<open>cksum1\<close> (FS20, FHT): \<open>while(len) s += buf[--len]\<close>.\<close>

fun cksum1 :: "u8 \<Rightarrow> u8 list \<Rightarrow> nat \<Rightarrow> u8" where
  "cksum1 s buf 0 = s"
| "cksum1 s buf (Suc len) = cksum1 (s + buf ! len) buf len"

text \<open>\<open>cksum2\<close> (EM): \<open>while(len) s ^= buf[--len]\<close>, from \<open>s = 0\<close>.\<close>

fun cksum2_loop :: "u8 \<Rightarrow> u8 list \<Rightarrow> nat \<Rightarrow> u8" where
  "cksum2_loop s buf 0 = s"
| "cksum2_loop s buf (Suc len) = cksum2_loop (s XOR buf ! len) buf len"

definition cksum2 :: "u8 list \<Rightarrow> nat \<Rightarrow> u8" where
  "cksum2 buf len = cksum2_loop 0 buf len"

text \<open>
  \<open>cksum3\<close> (KS300).  The loop runs from the last byte down; \<open>cnt\<close> is 0 only
  for the last byte, whose low nibble is left out when \<open>nibble\<close> is set.
\<close>

fun cksum3_loop :: "u8 \<Rightarrow> u8 list \<Rightarrow> nat \<Rightarrow> u8 \<Rightarrow> u8 \<Rightarrow> u8 \<Rightarrow> u8 \<times> u8" where
  "cksum3_loop nib buf 0 x y cnt = (x, y)"
| "cksum3_loop nib buf (Suc len) x y cnt =
     (let d = buf ! len;
          x1 = x XOR drop_bit 4 d;
          y1 = y + drop_bit 4 d;
          x2 = (if nib = 0 \<or> cnt \<noteq> 0 then x1 XOR (d AND 0xf) else x1);
          y2 = (if nib = 0 \<or> cnt \<noteq> 0 then y1 + (d AND 0xf) else y1)
      in cksum3_loop nib buf len x2 y2 (cnt + 1))"

definition cksum3 :: "u8 \<Rightarrow> u8 list \<Rightarrow> nat \<Rightarrow> u8" where
  "cksum3 nib buf len =
     (let (x, y) = cksum3_loop nib buf len 0 5 0;
          y1 = y + x
      in push_bit 4 y1 OR x)"

subsection \<open>wave\_equals, makeavg\<close>

text \<open>
  The three differences are \<open>int16_t\<close>, computed in \<open>int\<close> from bytes, so they
  are exact.
\<close>

definition wave_equals :: "wave_t \<Rightarrow> u8 \<Rightarrow> u8 \<Rightarrow> u8 \<Rightarrow> u8" where
  "wave_equals a htime ltime st =
     (let tdiffVal = uint (if st = STATE_IT then TDIFFIT else TDIFF);
          dlow = uint (lowtime a) - uint ltime;
          dhigh = uint (hightime a) - uint htime;
          dcomplete = (uint (lowtime a) + uint (hightime a)) - (uint ltime + uint htime)
      in if dlow < tdiffVal \<and> dlow > - tdiffVal \<and>
            dhigh < tdiffVal \<and> dhigh > - tdiffVal \<and>
            dcomplete < tdiffVal \<and> dcomplete > - tdiffVal
         then 1 else 0)"

definition wave_equals_itV3 :: "u8 \<Rightarrow> u8 \<Rightarrow> u8" where
  "wave_equals_itV3 htime ltime =
     (if uint ltime - uint TDIFF > uint htime then 1 else 0)"

definition makeavg :: "u8 \<Rightarrow> u8 \<Rightarrow> u8" where
  "makeavg i j = word_of_int ((uint i + uint i + uint i + uint j) div 4)"

subsection \<open>Reading bits: getbit, getbits\<close>

record input_t =
  in_data :: "u8 list"
  in_byte :: u8
  in_bit :: u8

definition getbit :: "input_t \<Rightarrow> u8 \<times> input_t" where
  "getbit inp =
     (let b = (if in_data inp ! unat (in_byte inp) AND BV (unat (in_bit inp)) \<noteq> 0
               then 1 else 0)
      in if in_bit inp = 0
         then (b, inp\<lparr>in_byte := in_byte inp + 1, in_bit := 7\<rparr>)
         else (b, inp\<lparr>in_bit := in_bit inp - 1\<rparr>))"

text \<open>
  \<open>getbits\<close>: the loop \<open>for (i = 0; i < nbits; i++)\<close>.  \<open>i\<close> and \<open>nbits\<close> are
  bytes in the source; \<open>i\<close> stays below \<open>nbits\<close>, so nothing wraps and they are
  naturals here.
\<close>

function getbits_loop :: "input_t \<Rightarrow> nat \<Rightarrow> u8 \<Rightarrow> nat \<Rightarrow> u8 \<Rightarrow> u8 \<times> input_t" where
  "getbits_loop inp nbits msb i ret =
     (if i < nbits
      then let (b, inp1) = getbit inp;
               ret1 = (if b \<noteq> 0
                       then ret OR BV (if msb \<noteq> 0 then nbits - i - 1 else i)
                       else ret)
           in getbits_loop inp1 nbits msb (i + 1) ret1
      else (ret, inp))"
  by pat_completeness auto
termination
  by (relation "measure (\<lambda>(inp, nbits, msb, i, ret). nbits - i)") auto

declare getbits_loop.simps [simp del]

definition getbits :: "input_t \<Rightarrow> nat \<Rightarrow> u8 \<Rightarrow> u8 \<times> input_t" where
  "getbits inp nbits msb = getbits_loop inp nbits msb 0 0"


subsection \<open>The decoders\<close>

text \<open>\<open>b->byteidx*8 + (7-b->bitidx)\<close>, the number of bits in the bucket, in \<open>int\<close>.\<close>

definition bucket_bits :: "bucket_t \<Rightarrow> int" where
  "bucket_bits b = uint (byteidx b) * 8 + (7 - uint (bitidx b))"

text \<open>
  A decoder returns 0 or 1 and leaves its output in \<open>oby\<close>, \<open>obuf\<close> and
  \<open>nibble\<close>.  A loop that the source leaves with \<open>return 0\<close> gives \<open>Inl\<close> of the
  state at that return, and \<open>Inr\<close> of its variables when it runs to its end.
\<close>

text \<open>
  \<open>analyze\<close> (FS20, EM, KS300).  \<open>analyze_body\<close> is one pass through the body
  of \<open>while(cnt++ < max)\<close> on the variables \<open>iby\<close>, \<open>ibi\<close>, \<open>obi\<close> and the
  statics; \<open>ibi\<close> and \<open>obi\<close> are \<open>int8_t\<close> and stay between -1 and 7.  The
  \<open>continue\<close> of the nibble check ends the pass.  \<open>analyze_loop\<close> is the test
  \<open>cnt++ < max\<close> around it.
\<close>

definition analyze_body ::
  "config \<Rightarrow> u8 list \<Rightarrow> u8 \<Rightarrow> u8 \<times> int \<times> int \<times> rf_state
     \<Rightarrow> rf_state + (u8 \<times> int \<times> int \<times> rf_state)" where
  "analyze_body cfg d t = (\<lambda>(iby, ibi, obi, s).
     let bit_v = (if d ! unat iby AND BV (nat ibi) \<noteq> 0 then 1 else 0 :: u8);
         iby1 = (if ibi = 0 then iby + 1 else iby);
         ibi1 = (if ibi = 0 then 7 else ibi - 1)
     in
     if t = TYPE_KS300 cfg \<and> obi = 3 \<and> nibble s = 0
     then (if bit_v = 0 then Inl s else Inr (iby1, ibi1, obi, s\<lparr>nibble := 1\<rparr>))
     else
       let s1 = (if t = TYPE_KS300 cfg \<and> obi = 3 then s\<lparr>nibble := 0\<rparr> else s)
       in
       if obi = - 1
       then
         if t = TYPE_FS20 cfg \<and> parity_even_bit (obuf s1 ! unat (oby s1)) \<noteq> bit_v
         then Inl s1
         else if (t = TYPE_EM cfg \<or> t = TYPE_KS300 cfg) \<and> bit_v = 0
         then Inl s1
         else
           let s2 = s1\<lparr>oby := oby s1 + 1\<rparr>;
               s3 = s2\<lparr>obuf := (obuf s2)[unat (oby s2) := 0]\<rparr>
           in Inr (iby1, ibi1, 7, s3)
       else
         let s2 = (if bit_v \<noteq> 0 \<and> t = TYPE_FS20 cfg
                   then s1\<lparr>obuf := (obuf s1)[unat (oby s1) :=
                              obuf s1 ! unat (oby s1) OR BV (nat obi)]\<rparr>
                   else s1);
             s3 = (if bit_v \<noteq> 0 \<and> (t = TYPE_EM cfg \<or> t = TYPE_KS300 cfg)
                   then s2\<lparr>obuf := (obuf s2)[unat (oby s2) :=
                              obuf s2 ! unat (oby s2) OR BV (nat (7 - obi))]\<rparr>
                   else s2)
         in Inr (iby1, ibi1, obi - 1, s3))"

function analyze_loop ::
  "config \<Rightarrow> u8 list \<Rightarrow> u8 \<Rightarrow> u8 \<Rightarrow> u8 \<Rightarrow> u8 \<times> int \<times> int \<times> rf_state
     \<Rightarrow> rf_state + (u8 \<times> int \<times> rf_state)" where
  "analyze_loop cfg d t mx cnt x =
     (if cnt < mx
      then (case analyze_body cfg d t x of
              Inl s \<Rightarrow> Inl s
            | Inr x1 \<Rightarrow> analyze_loop cfg d t mx (cnt + 1) x1)
      else Inr (cnt + 1, fst (snd (snd x)), snd (snd (snd x))))"
  by pat_completeness auto
termination
  apply (relation "measure (\<lambda>(cfg, d, t, mx, cnt, x). unat mx - unat cnt)")
   apply simp
  apply simp
  apply unat_arith
  done

declare analyze_loop.simps [simp del]

definition analyze :: "config \<Rightarrow> bucket_t \<Rightarrow> u8 \<Rightarrow> rf_state \<Rightarrow> u8 \<times> rf_state" where
  "analyze cfg b t s =
     (let s0 = s\<lparr>nibble := 0, oby := 0\<rparr>;
          mx = (word_of_int (bucket_bits b) :: u8);
          s1 = s0\<lparr>obuf := (obuf s0)[0 := 0]\<rparr>
      in case analyze_loop cfg (data b) t mx 0 (0, 7, 7, s1) of
           Inl s2 \<Rightarrow> (0, s2)
         | Inr (cnt, obi, s2) \<Rightarrow>
             if cnt \<le> mx then (0, s2)
             else
               let s3 = (if t = TYPE_EM cfg \<and> obi = - 1 then s2\<lparr>oby := oby s2 + 1\<rparr>
                         else if nibble s2 \<noteq> 0 then s2\<lparr>oby := oby s2 + 1\<rparr>
                         else s2)
               in if oby s3 = 0 then (0, s3) else (1, s3))"

text \<open>
  \<open>analyze_hms\<close>: \<open>analyze_hms_body\<close> is the body of
  \<open>for(oby = 0; oby < 6; oby++)\<close> on \<open>in\<close>, \<open>crc\<close> and the statics.
\<close>

definition analyze_hms_body ::
  "input_t \<times> u8 \<times> rf_state \<Rightarrow> rf_state + (input_t \<times> u8 \<times> rf_state)" where
  "analyze_hms_body = (\<lambda>(inp, crc, s).
     let (v, inp1) = getbits inp 8 0;
         s1 = s\<lparr>obuf := (obuf s)[unat (oby s) := v]\<rparr>;
         (p, inp2) = getbit inp1
     in if parity_even_bit (obuf s1 ! unat (oby s1)) \<noteq> p then Inl s1
        else
          let (stop, inp3) = getbit inp2
          in if stop \<noteq> 0 then Inl s1
             else Inr (inp3, crc XOR obuf s1 ! unat (oby s1), s1))"

function analyze_hms_loop ::
  "input_t \<times> u8 \<times> rf_state \<Rightarrow> rf_state + (input_t \<times> u8 \<times> rf_state)" where
  "analyze_hms_loop x =
     (if oby (snd (snd x)) < 6
      then (case analyze_hms_body x of
              Inl s \<Rightarrow> Inl s
            | Inr (inp, crc, s) \<Rightarrow> analyze_hms_loop (inp, crc, s\<lparr>oby := oby s + 1\<rparr>))
      else Inr x)"
  by pat_completeness auto
termination
  apply (relation "measure (\<lambda>(inp, crc, s). 6 - unat (oby s))")
   apply simp
  apply (auto simp: analyze_hms_body_def Let_def word_less_nat_alt unat_word_ariths
              split: prod.splits if_splits)
  done

declare analyze_hms_loop.simps [simp del]

definition analyze_hms :: "bucket_t \<Rightarrow> rf_state \<Rightarrow> u8 \<times> rf_state" where
  "analyze_hms b s =
     (let inp = \<lparr>in_data = data b, in_byte = 0, in_bit = 7\<rparr>;
          s0 = s\<lparr>oby := 0\<rparr>
      in if bucket_bits b < 69 then (0, s0)
         else
           case analyze_hms_loop (inp, 0, s0\<lparr>oby := 0\<rparr>) of
             Inl s1 \<Rightarrow> (0, s1)
           | Inr (inp1, crc, s1) \<Rightarrow>
               let (CRC, inp2) = getbits inp1 8 0;
                   (p, inp3) = getbit inp2
               in if parity_even_bit CRC \<noteq> p then (0, s1)
                  else if crc \<noteq> CRC then (0, s1)
                  else (1, s1))"


text \<open>
  \<open>analyze_esa\<close>, with the constants of \<open>GIRA_MODE\<close> or of the default build.
  \<open>analyze_esa_body\<close> is the body of \<open>for (oby = 0; oby < ESA_DATALEN; oby++)\<close>.
\<close>

definition ESA_BITLEN :: "config \<Rightarrow> int" where
  "ESA_BITLEN cfg = (if GIRA_MODE cfg then 160 else 144)"

definition ESA_DATALEN :: "config \<Rightarrow> nat" where
  "ESA_DATALEN cfg = (if GIRA_MODE cfg then 17 else 15)"

definition ESA_CRC :: "config \<Rightarrow> u16" where
  "ESA_CRC cfg = (if GIRA_MODE cfg then 0xee11 else 0xf00f)"

definition analyze_esa_body :: "input_t \<times> u8 \<times> u16 \<times> rf_state \<Rightarrow> input_t \<times> u8 \<times> u16 \<times> rf_state" where
  "analyze_esa_body = (\<lambda>(inp, salt, crc, s).
     let (byte_v, inp1) = getbits inp 8 1;
         crc1 = crc + ucast byte_v;
         s1 = s\<lparr>obuf := (obuf s)[unat (oby s) := byte_v XOR salt]\<rparr>;
         salt1 = byte_v + 0x24
     in (inp1, salt1, crc1, s1))"

function analyze_esa_loop ::
  "config \<Rightarrow> input_t \<times> u8 \<times> u16 \<times> rf_state \<Rightarrow> input_t \<times> u8 \<times> u16 \<times> rf_state" where
  "analyze_esa_loop cfg x =
     (if unat (oby (snd (snd (snd x)))) < ESA_DATALEN cfg
      then (case analyze_esa_body x of
              (inp, salt, crc, s) \<Rightarrow> analyze_esa_loop cfg (inp, salt, crc, s\<lparr>oby := oby s + 1\<rparr>))
      else x)"
  by pat_completeness auto
termination
  apply (relation "measure (\<lambda>(cfg, inp, salt, crc, s). ESA_DATALEN cfg - unat (oby s))")
   apply simp
  apply (auto simp: analyze_esa_body_def Let_def ESA_DATALEN_def unat_word_ariths
              split: prod.splits if_splits)
  done

declare analyze_esa_loop.simps [simp del]

definition analyze_esa :: "config \<Rightarrow> bucket_t \<Rightarrow> rf_state \<Rightarrow> u8 \<times> rf_state" where
  "analyze_esa cfg b s =
     (let inp = \<lparr>in_data = data b, in_byte = 0, in_bit = 7\<rparr>
      in if state b \<noteq> STATE_ESA then (0, s)
         else if bucket_bits b \<noteq> ESA_BITLEN cfg then (0, s)
         else
           let (inp1, salt, crc, s1) = analyze_esa_loop cfg (inp, 0x89, ESA_CRC cfg, s\<lparr>oby := 0\<rparr>);
               (v, inp2) = getbits inp1 8 1;
               s2 = s1\<lparr>obuf := (obuf s1)[unat (oby s1) := v]\<rparr>;
               crc1 = crc + ucast (obuf s2 ! unat (oby s2));
               s3 = s2\<lparr>obuf := (obuf s2)[unat (oby s2) := obuf s2 ! unat (oby s2) XOR 0xff]\<rparr>;
               s4 = s3\<lparr>oby := oby s3 + 1\<rparr>;
               (hi, inp3) = getbits inp2 8 1;
               crc2 = crc1 - push_bit 8 (ucast hi);
               (lo, inp4) = getbits inp3 8 1;
               crc3 = crc2 - ucast lo
           in if crc3 \<noteq> 0 then (0, s4) else (1, s4))"

text \<open>
  \<open>analyze_TX3\<close>.  \<open>n\<close> and \<open>crc\<close> are bytes; \<open>analyze_TX3_body\<close> is the body
  of \<open>for(oby = 0; oby < 4; oby++)\<close>.
\<close>

definition analyze_TX3_body :: "input_t \<times> u8 \<times> rf_state \<Rightarrow> input_t \<times> u8 \<times> rf_state" where
  "analyze_TX3_body = (\<lambda>(inp, crc, s).
     let (n, inp1) = (if oby s = 0
                      then (let (v, i1) = getbits inp 7 1 in (0x80 OR v, i1))
                      else getbits inp 8 1);
         crc1 = crc + drop_bit 4 n + (n AND 0xf);
         s1 = s\<lparr>obuf := (obuf s)[unat (oby s) := n]\<rparr>
     in (inp1, crc1, s1))"

function analyze_TX3_loop :: "input_t \<times> u8 \<times> rf_state \<Rightarrow> input_t \<times> u8 \<times> rf_state" where
  "analyze_TX3_loop x =
     (if oby (snd (snd x)) < 4
      then (case analyze_TX3_body x of
              (inp, crc, s) \<Rightarrow> analyze_TX3_loop (inp, crc, s\<lparr>oby := oby s + 1\<rparr>))
      else x)"
  by pat_completeness auto
termination
  apply (relation "measure (\<lambda>(inp, crc, s). 4 - unat (oby s))")
   apply simp
  apply (auto simp: analyze_TX3_body_def Let_def word_less_nat_alt unat_word_ariths
              split: prod.splits if_splits)
  done

declare analyze_TX3_loop.simps [simp del]

definition analyze_TX3 :: "bucket_t \<Rightarrow> rf_state \<Rightarrow> u8 \<times> rf_state" where
  "analyze_TX3 b s =
     (let inp = \<lparr>in_data = data b, in_byte = 0, in_bit = 7\<rparr>
      in if byteidx b \<noteq> 4 \<or> bitidx b \<noteq> 1 then (0, s)
         else
           let (inp1, crc, s1) = analyze_TX3_loop (inp, 0, s\<lparr>oby := 0\<rparr>);
               (v, inp2) = getbits inp1 7 1;
               s2 = s1\<lparr>obuf := (obuf s1)[unat (oby s1) := push_bit 1 v]\<rparr>;
               crc1 = (crc + drop_bit 4 (obuf s2 ! unat (oby s2))) AND 0xF;
               s3 = s2\<lparr>oby := oby s2 + 1\<rparr>
           in if drop_bit 4 crc1 \<noteq> 0 \<or> drop_bit 4 (obuf s3 ! 0) \<noteq> 0xA
              then (0, s3) else (1, s3))"

text \<open>The loop \<open>for (oby = 0; oby < lim; oby++) obuf[oby] = b->data[oby]\<close>.\<close>

function copy_loop :: "u8 list \<Rightarrow> u8 \<Rightarrow> rf_state \<Rightarrow> rf_state" where
  "copy_loop d lim s =
     (if oby s < lim
      then copy_loop d lim
             (s\<lparr>obuf := (obuf s)[unat (oby s) := d ! unat (oby s)], oby := oby s + 1\<rparr>)
      else s)"
  by pat_completeness auto
termination
  apply (relation "measure (\<lambda>(d, lim, s). unat lim - unat (oby s))")
   apply simp
  apply simp
  apply unat_arith
  done

declare copy_loop.simps [simp del]

definition analyze_it :: "bucket_t \<Rightarrow> rf_state \<Rightarrow> u8 \<times> rf_state" where
  "analyze_it b s =
     (if (state b \<noteq> STATE_IT \<or> byteidx b \<noteq> 3 \<or> bitidx b \<noteq> 7) \<and>
         (state b \<noteq> STATE_ITV3 \<or> byteidx b \<noteq> 8 \<or> bitidx b \<noteq> 7)
      then (0, s)
      else (1, copy_loop (data b) (byteidx b) (s\<lparr>oby := 0\<rparr>)))"

definition analyze_tcm97001 :: "bucket_t \<Rightarrow> rf_state \<Rightarrow> u8 \<times> rf_state" where
  "analyze_tcm97001 b s =
     (if byteidx b \<noteq> 3 \<or> bitidx b \<noteq> 7 \<or> state b \<noteq> STATE_TCM97001
      then (0, s)
      else (1, copy_loop (data b) (byteidx b) (s\<lparr>oby := 0\<rparr>)))"

text \<open>\<open>analyze_revolt\<close>: the copy loop also sums the bytes.\<close>

function analyze_revolt_loop :: "u8 list \<Rightarrow> u8 \<Rightarrow> rf_state \<Rightarrow> u8 \<times> rf_state" where
  "analyze_revolt_loop d sum_v s =
     (if oby s < 11
      then analyze_revolt_loop d (sum_v + d ! unat (oby s))
             (s\<lparr>obuf := (obuf s)[unat (oby s) := d ! unat (oby s)], oby := oby s + 1\<rparr>)
      else (sum_v, s))"
  by pat_completeness auto
termination
  apply (relation "measure (\<lambda>(d, sum_v, s). 11 - unat (oby s))")
   apply simp
  apply (simp add: word_less_nat_alt unat_word_ariths)
  done

declare analyze_revolt_loop.simps [simp del]

definition analyze_revolt :: "bucket_t \<Rightarrow> rf_state \<Rightarrow> u8 \<times> rf_state" where
  "analyze_revolt b s =
     (if byteidx b \<noteq> 12 \<or> state b \<noteq> STATE_REVOLT \<or> bitidx b \<noteq> 0 then (0, s)
      else
        let (sum_v, s1) = analyze_revolt_loop (data b) 0 (s\<lparr>oby := 0\<rparr>)
        in if sum_v \<noteq> data b ! 11 then (0, s1) else (1, s1))"


subsection \<open>RfAnalyze\_Task: the decoders in their order\<close>

text \<open>
  The task keeps the pointer \<open>b = bucket_array + bucket_out\<close>; \<open>i\<close> below is its
  index.  Each statement of the dispatch is a function from \<open>datatype\<close> and the
  state to \<open>datatype\<close> and the state, with the test \<open>!datatype\<close> where the source
  has it.
\<close>

definition step_it :: "config \<Rightarrow> nat \<Rightarrow> u8 \<times> rf_state \<Rightarrow> u8 \<times> rf_state" where
  "step_it cfg i = (\<lambda>(dt, s).
     if state (bucket_at s i) = STATE_IT \<or> state (bucket_at s i) = STATE_ITV3
     then (if dt = 0
           then (let (r, s1) = analyze_it (bucket_at s i) s
                 in (if r \<noteq> 0 then TYPE_IT cfg else dt, s1))
           else (dt, s))
     else (dt, s))"

definition step_tcm97001 :: "config \<Rightarrow> nat \<Rightarrow> u8 \<times> rf_state \<Rightarrow> u8 \<times> rf_state" where
  "step_tcm97001 cfg i = (\<lambda>(dt, s).
     if dt = 0
     then (let (r, s1) = analyze_tcm97001 (bucket_at s i) s
           in (if r \<noteq> 0 then TYPE_TCM97001 cfg else dt, s1))
     else (dt, s))"

definition step_revolt :: "config \<Rightarrow> nat \<Rightarrow> u8 \<times> rf_state \<Rightarrow> u8 \<times> rf_state" where
  "step_revolt cfg i = (\<lambda>(dt, s).
     if dt = 0
     then (let (r, s1) = analyze_revolt (bucket_at s i) s
           in (if r \<noteq> 0 then TYPE_REVOLT cfg else dt, s1))
     else (dt, s))"

definition step_esa :: "config \<Rightarrow> nat \<Rightarrow> u8 \<times> rf_state \<Rightarrow> u8 \<times> rf_state" where
  "step_esa cfg i = (\<lambda>(dt, s).
     if dt = 0
     then (let (r, s1) = analyze_esa cfg (bucket_at s i) s
           in (if r \<noteq> 0 then TYPE_ESA cfg else dt, s1))
     else (dt, s))"

text \<open>
  FS20, FS20 from a repeater, or FHT.  \<open>fs_csum+1 == obuf[oby]\<close> is a comparison
  in \<open>int\<close>.
\<close>

definition step_fs20 :: "config \<Rightarrow> nat \<Rightarrow> u8 \<times> rf_state \<Rightarrow> u8 \<times> rf_state" where
  "step_fs20 cfg i = (\<lambda>(dt, s).
     if dt = 0
     then (let (r, s1) = analyze cfg (bucket_at s i) (TYPE_FS20 cfg) s
           in if r \<noteq> 0
              then
                let s2 = s1\<lparr>oby := oby s1 - 1\<rparr>;
                    n = unat (oby s2);
                    fs_csum = cksum1 6 (obuf s2) n
                in if fs_csum = obuf s2 ! n \<and> oby s2 \<ge> 4 then (TYPE_FS20 cfg, s2)
                   else if uint fs_csum + 1 = uint (obuf s2 ! n) \<and> oby s2 \<ge> 4
                   then (TYPE_FS20 cfg, s2\<lparr>obuf := (obuf s2)[n := fs_csum]\<rparr>)
                   else if cksum1 12 (obuf s2) n = obuf s2 ! n \<and> oby s2 \<ge> 4
                   then (TYPE_FHT cfg, s2)
                   else (0, s2)
              else (dt, s1))
     else (dt, s))"

definition step_em :: "config \<Rightarrow> nat \<Rightarrow> u8 \<times> rf_state \<Rightarrow> u8 \<times> rf_state" where
  "step_em cfg i = (\<lambda>(dt, s).
     if dt = 0
     then (let (r, s1) = analyze cfg (bucket_at s i) (TYPE_EM cfg) s
           in if r \<noteq> 0
              then
                let s2 = s1\<lparr>oby := oby s1 - 1\<rparr>
                in if oby s2 = 9 \<and> cksum2 (obuf s2) (unat (oby s2)) = obuf s2 ! unat (oby s2)
                   then (TYPE_EM cfg, s2) else (dt, s2)
              else (dt, s1))
     else (dt, s))"

definition step_hms :: "config \<Rightarrow> nat \<Rightarrow> u8 \<times> rf_state \<Rightarrow> u8 \<times> rf_state" where
  "step_hms cfg i = (\<lambda>(dt, s).
     if dt = 0
     then (let (r, s1) = analyze_hms (bucket_at s i) s
           in (if r \<noteq> 0 then TYPE_HMS cfg else dt, s1))
     else (dt, s))"

definition step_tx3 :: "config \<Rightarrow> nat \<Rightarrow> u8 \<times> rf_state \<Rightarrow> u8 \<times> rf_state" where
  "step_tx3 cfg i = (\<lambda>(dt, s).
     if dt = 0
     then (let (r, s1) = analyze_TX3 (bucket_at s i) s
           in (if r \<noteq> 0 then TYPE_TX3 cfg else dt, s1))
     else (dt, s))"

text \<open>
  A read \<open>a[k]\<close> whose index is computed in \<open>int\<close> and can be negative:
  \<open>obuf[oby-nibble]\<close>.  Outside the array nothing is known of the byte read.
\<close>

definition array_read :: "u8 list \<Rightarrow> int \<Rightarrow> u8" where
  "array_read a k = (if 0 \<le> k \<and> k < int (length a) then a ! nat k else undefined)"

text \<open>
  KS300: the last bit has no rising edge after it, so a bit is added by hand
  before \<open>analyze\<close> and taken back with \<open>delbit\<close> when no KS300 message is found.
  The static \<open>hightime\<close> is cut to the \<open>uint8_t\<close> parameter of \<open>wave_equals\<close>.
\<close>

definition step_ks300 :: "config \<Rightarrow> nat \<Rightarrow> u8 \<times> rf_state \<Rightarrow> u8 \<times> rf_state" where
  "step_ks300 cfg i = (\<lambda>(dt, s).
     if dt = 0
     then
       let b = bucket_at s i;
           s1 = addbit s i (wave_equals (one b) (ucast (pulse_high s)) (lowtime (one b)) (state b));
           (r, s2) = analyze cfg (bucket_at s1 i) (TYPE_KS300 cfg) s1;
           (dt3, s3) =
             (if r \<noteq> 0
              then (let s2' = s2\<lparr>oby := oby s2 - 1\<rparr>
                    in (if cksum3 (nibble s2') (obuf s2') (unat (oby s2')) =
                           array_read (obuf s2') (uint (oby s2') - uint (nibble s2'))
                        then TYPE_KS300 cfg else dt, s2'))
              else (dt, s2))
       in if dt3 = 0 then (dt3, delbit s3 i) else (dt3, s3)
     else (dt, s))"

definition step_hoermann :: "config \<Rightarrow> nat \<Rightarrow> u8 \<times> rf_state \<Rightarrow> u8 \<times> rf_state" where
  "step_hoermann cfg i = (\<lambda>(dt, s).
     let b = bucket_at s i in
     if dt = 0 \<and> byteidx b = 4 \<and> bitidx b = 4 \<and>
        wave_equals (zero b) (word_of_int (TSCALE 960)) (word_of_int (TSCALE 480)) (state b) \<noteq> 0
     then
       let s1 = addbit s i (wave_equals (one b) (ucast (pulse_high s))
                              (word_of_int (TSCALE 480)) (state b));
           s2 = copy_loop (data (bucket_at s1 i)) 5 (s1\<lparr>oby := 0\<rparr>)
       in (TYPE_HRM cfg, s2)
     else (dt, s))"

text \<open>
  Lines 513 to 591: \<open>datatype\<close> starts as 0.  With \<open>LONG_PULSE\<close> the decoders
  from ESA on run only for a bucket that is not in state REVOLT, IT or TCM97001.
\<close>

definition long_pulse_gate :: "config \<Rightarrow> bucket_t \<Rightarrow> bool" where
  "long_pulse_gate cfg b =
     (\<not> LONG_PULSE cfg \<or>
      (state b \<noteq> STATE_REVOLT \<and> state b \<noteq> STATE_IT \<and> state b \<noteq> STATE_TCM97001))"

definition dispatch :: "config \<Rightarrow> nat \<Rightarrow> rf_state \<Rightarrow> u8 \<times> rf_state" where
  "dispatch cfg i s =
     (let x1 = step_it cfg i (0, s);
          x2 = step_tcm97001 cfg i x1;
          x3 = step_revolt cfg i x2
      in if long_pulse_gate cfg (bucket_at (snd x3) i)
         then
           let x4 = step_esa cfg i x3;
               x5 = step_fs20 cfg i x4;
               x6 = step_em cfg i x5;
               x7 = step_hms cfg i x6;
               x8 = step_tx3 cfg i x7;
               x9 = step_ks300 cfg i x8
           in step_hoermann cfg i x9
         else x3)"


subsection \<open>RfAnalyze\_Task: repeats and output\<close>

text \<open>
  What one run of the task reads from outside the module: the tick counter
  \<open>ticks\<close> of the clock, and the value of each \<open>cc1100_readReg(CC1100_RSSI)\<close>
  (in the monitor, in the message line and in the bucket dump).
\<close>

record task_in =
  ticks :: u32
  rssi_mon :: u8
  rssi_msg :: u8
  rssi_dump :: u8

text \<open>
  \<open>for(roby = 0; roby < oby; roby++) if(robuf[roby] != obuf[roby]) { isnotrep = 0; break; }\<close>
\<close>

function compare_loop :: "rf_state \<Rightarrow> rf_state" where
  "compare_loop s =
     (if roby s < oby s
      then (if robuf s ! unat (roby s) \<noteq> obuf s ! unat (roby s)
            then s\<lparr>isnotrep := False\<rparr>
            else compare_loop (s\<lparr>roby := roby s + 1\<rparr>))
      else s)"
  by pat_completeness auto
termination
  apply (relation "measure (\<lambda>s. unat (oby s) - unat (roby s))")
   apply simp
  apply simp
  apply unat_arith
  done

declare compare_loop.simps [simp del]

text \<open>\<open>for(roby = 0; roby < oby; roby++) robuf[roby] = obuf[roby];\<close>\<close>

function save_loop :: "rf_state \<Rightarrow> rf_state" where
  "save_loop s =
     (if roby s < oby s
      then save_loop (s\<lparr>robuf := (robuf s)[unat (roby s) := obuf s ! unat (roby s)],
                         roby := roby s + 1\<rparr>)
      else s)"
  by pat_completeness auto
termination
  apply (relation "measure (\<lambda>s. unat (oby s) - unat (roby s))")
   apply simp
  apply simp
  apply unat_arith
  done

declare save_loop.simps [simp del]

text \<open>Lines 595 to 616: the flags are cleared, then repeated messages are filtered.\<close>

definition repeat_check :: "config \<Rightarrow> u32 \<Rightarrow> rf_state \<Rightarrow> rf_state" where
  "repeat_check cfg now s =
     (let s1 = s\<lparr>isrep := False, packageOK := False\<rparr>
      in if tx_report s1 AND REP_REPEATED cfg = 0
         then
           let s2 = (if roby s1 = oby s1
                     then (let s' = compare_loop (s1\<lparr>roby := 0\<rparr>)
                           in if roby s' = oby s' \<and> now - reptime s' < REPTIME cfg
                              then s'\<lparr>isrep := True\<rparr> else s')
                     else s1);
               s3 = save_loop (s2\<lparr>roby := 0\<rparr>)
           in s3\<lparr>reptime := now\<rparr>
         else s1)"

text \<open>Lines 618 to 624: FHT protocol messages count as repeated.\<close>

definition fht_protocol_check :: "config \<Rightarrow> u8 \<Rightarrow> rf_state \<Rightarrow> rf_state" where
  "fht_protocol_check cfg dt s =
     (if dt = TYPE_FHT cfg \<and> tx_report s AND REP_FHTPROTO cfg = 0 \<and> oby s > 4 \<and>
         (obuf s ! 2 = FHT_ACK cfg \<or> obuf s ! 2 = FHT_ACK2 cfg \<or>
          obuf s ! 2 = FHT_CAN_XMIT cfg \<or> obuf s ! 2 = FHT_CAN_RCV cfg \<or>
          obuf s ! 2 = FHT_START_XMIT cfg \<or> obuf s ! 2 = FHT_END_XMIT cfg \<or>
          obuf s ! 3 AND 0x70 = 0x70)
      then s\<lparr>isrep := True\<rparr> else s)"

definition checkForRepeatedPackage :: "config \<Rightarrow> u8 \<Rightarrow> rf_state \<Rightarrow> rf_state" where
  "checkForRepeatedPackage cfg dt s =
     (if dt = TYPE_IT cfg \<or> dt = TYPE_TCM97001 cfg
      then (if isrep s \<and> \<not> isnotrep s then s\<lparr>isnotrep := True, packageOK := True\<rparr>
            else if isrep s then s\<lparr>packageOK := False\<rparr>
            else s)
      else (if \<not> isrep s then s\<lparr>packageOK := True\<rparr> else s))"

text \<open>
  Lines 633 to 644: the message line.  \<open>message_line\<close> is what the display
  functions are called with, after \<open>oby\<close> has been lowered for a half byte.
\<close>

definition message_line :: "config \<Rightarrow> u8 \<Rightarrow> u8 \<Rightarrow> rf_state \<Rightarrow> out list" where
  "message_line cfg rssi dt s =
     [DC dt] @
     map (\<lambda>k. DH2 (obuf s ! k)) [0..<unat (oby s)] @
     (if nibble s \<noteq> 0 then [DH (obuf s ! unat (oby s) AND 0xf) 1] else []) @
     (if tx_report s AND REP_RSSI cfg \<noteq> 0 then [DH2 rssi] else []) @
     [DNL]"

definition emit_message :: "config \<Rightarrow> u8 \<Rightarrow> u8 \<Rightarrow> rf_state \<Rightarrow> rf_state" where
  "emit_message cfg rssi dt s =
     (if packageOK s
      then
        let s1 = (if nibble s \<noteq> 0 then s\<lparr>oby := oby s - 1\<rparr> else s)
        in s1\<lparr>out_log := out_log s1 @ message_line cfg rssi dt s1\<rparr>
      else s)"

text \<open>Lines 593 to 646.\<close>

definition report :: "config \<Rightarrow> task_in \<Rightarrow> u8 \<Rightarrow> rf_state \<Rightarrow> rf_state" where
  "report cfg inp dt s =
     (if dt \<noteq> 0 \<and> tx_report s AND REP_KNOWN cfg \<noteq> 0
      then emit_message cfg (rssi_msg inp) dt
             (checkForRepeatedPackage cfg dt
               (fht_protocol_check cfg dt (repeat_check cfg (ticks inp) s)))
      else s)"

text \<open>
  Lines 480 to 503: the monitor output for the last pulse.  \<open>(rssi-80)>>3\<close> is
  computed in \<open>int\<close> and stored into a byte.
\<close>

definition monitor :: "config \<Rightarrow> task_in \<Rightarrow> rf_state \<Rightarrow> rf_state" where
  "monitor cfg inp s =
     (if pulse_low s \<noteq> 0
      then
        let s1 = (if tx_report s AND REP_LCDMON cfg \<noteq> 0
                  then
                    let r0 = rssi_mon inp;
                        r1 = (if r0 \<ge> 128 then r0 - 128 else r0 + 128);
                        r2 = (if r1 < 64 then 0
                              else if r1 \<ge> 192 then 15
                              else word_of_int ((uint r1 - 80) div 8))
                    in s\<lparr>out_log := out_log s @ [DC (0x61 + r2)]\<rparr>
                  else s);
            s2 = (if tx_report s1 AND REP_MONITOR cfg \<noteq> 0
                  then s1\<lparr>out_log := out_log s1 @
                         [DC 0x72] @
                         (if tx_report s1 AND REP_BINTIME cfg \<noteq> 0
                          then [DC (ucast (pulse_high s1))] else []) @
                         [DC 0x66] @
                         (if tx_report s1 AND REP_BINTIME cfg \<noteq> 0
                          then [DC (ucast (pulse_low s1))] else [])\<rparr>
                  else s1)
        in s2\<lparr>pulse_low := 0\<rparr>
      else s)"

text \<open>Lines 649 to 672: the dump of the bucket, which also moves \<open>byteidx\<close>.\<close>

definition dump_bucket :: "config \<Rightarrow> task_in \<Rightarrow> nat \<Rightarrow> rf_state \<Rightarrow> rf_state" where
  "dump_bucket cfg inp i s =
     (if tx_report s AND REP_BITS cfg \<noteq> 0
      then
        let b = bucket_at s i;
            head = [DC 0x70, DU (uint (state b)) 2,
                    DU (uint (hightime (zero b)) * 16) 5, DU (uint (lowtime (zero b)) * 16) 5,
                    DU (uint (hightime (one b)) * 16) 5, DU (uint (lowtime (one b)) * 16) 5,
                    DU (uint (sync b)) 3, DU (uint (byteidx b)) 3,
                    DU (7 - uint (bitidx b)) 2, DC 0x20] @
                   (if tx_report s AND REP_RSSI cfg \<noteq> 0
                    then [DH2 (rssi_dump inp), DC 0x20] else []);
            b1 = (if bitidx b \<noteq> 7 then b\<lparr>byteidx := byteidx b + 1\<rparr> else b);
            s1 = put_bucket s i b1
        in s1\<lparr>out_log := out_log s1 @ head @
                 map (\<lambda>k. DH2 (data b1 ! k)) [0..<unat (byteidx b1)] @ [DNL]\<rparr>
      else s)"

text \<open>Lines 675 to 679: the bucket is given back.\<close>

definition release_bucket :: "config \<Rightarrow> nat \<Rightarrow> rf_state \<Rightarrow> rf_state" where
  "release_bucket cfg i s =
     (let s1 = put_bucket s i ((bucket_at s i)\<lparr>state := STATE_RESET\<rparr>);
          s2 = s1\<lparr>bucket_nrused := bucket_nrused s1 - 1\<rparr>;
          s3 = s2\<lparr>bucket_out := bucket_out s2 + 1\<rparr>
      in if unat (bucket_out s3) = RCV_BUCKETS cfg then s3\<lparr>bucket_out := 0\<rparr> else s3)"

definition RfAnalyze_Task :: "config \<Rightarrow> task_in \<Rightarrow> rf_state \<Rightarrow> rf_state" where
  "RfAnalyze_Task cfg inp s =
     (let s1 = monitor cfg inp s
      in if bucket_nrused s1 = 0 then s1
         else
           let i = unat (bucket_out s1);
               (dt, s2) = dispatch cfg i s1;
               s3 = report cfg inp dt s2;
               s4 = dump_bucket cfg inp i s3
           in release_bucket cfg i s4)"

subsection \<open>The timer compare interrupt\<close>

text \<open>
  \<open>ISR(TIMER1_COMPA_vect)\<close>: no edge for the time in \<open>OCR1A\<close>.  With
  \<open>LONG_PULSE\<close> the timer goes on counting from the compare value, up to
  \<open>TWRAP\<close>.  The text of \<open>DS_P\<close> ends with CR and LF.
\<close>

definition TIMER1_COMPA_vect :: "config \<Rightarrow> rf_state \<Rightarrow> rf_state" where
  "TIMER1_COMPA_vect cfg s =
     (let s1 = s\<lparr>TIMSK1 := 0\<rparr>;
          s2 = (if LONG_PULSE cfg then s1\<lparr>TCNT1 := OCR1A s1, OCR1A := TWRAP cfg\<rparr> else s1);
          s3 = (if tx_report s2 AND REP_MONITOR cfg \<noteq> 0
                then s2\<lparr>out_log := out_log s2 @ [DC 0x2e]\<rparr> else s2);
          b = bucket_at s3 (unat (bucket_in s3))
      in if state b < STATE_COLLECT \<or> byteidx b < 2 then reset_input s3
         else if uint (bucket_nrused s3) + 1 = int (RCV_BUCKETS cfg)
         then reset_input
                (if tx_report s3 AND REP_BITS cfg \<noteq> 0
                 then s3\<lparr>out_log := out_log s3 @ [DS_P (''BOVF'' @ [CHR 0x0D, CHR 0x0A])]\<rparr> else s3)
         else
           let s4 = s3\<lparr>bucket_nrused := bucket_nrused s3 + 1\<rparr>;
               s5 = s4\<lparr>bucket_in := bucket_in s4 + 1\<rparr>
           in if unat (bucket_in s5) = RCV_BUCKETS cfg then s5\<lparr>bucket_in := 0\<rparr> else s5)"


subsection \<open>The edge interrupt\<close>

text \<open>
  \<open>ISR(CC1100_INTVECT)\<close> reads the timer and the level of the input pin.
  \<open>c\<close>, \<open>hightime\<close> and \<open>lowtime\<close> are \<open>uint16_t\<close> with \<open>LONG_PULSE\<close> and
  \<open>uint8_t\<close> without; \<open>pulse_cut\<close> is the assignment to such a variable.  With
  \<open>LONG_PULSE\<close> the operands of \<open>lowtime-1 > hightime\<close> and
  \<open>hightime*2 > lowtime\<close> are \<open>unsigned int\<close> (16 bits on the AVR) and the
  arithmetic wraps; without, they are promoted to \<open>int\<close>.  The write to the flag
  register \<open>TIFR1\<close> is left out.  \<open>OCIE1A\<close> is bit 1 of \<open>TIMSK1\<close>.
\<close>

record edge_in =
  tcnt1 :: u16
  pin_set :: bool

definition OCIE1A :: nat where
  "OCIE1A = 1"

definition pulse_cut :: "config \<Rightarrow> u16 \<Rightarrow> u16" where
  "pulse_cut cfg v = (if LONG_PULSE cfg then v else v AND 0xff)"

definition upd_bucket :: "rf_state \<Rightarrow> nat \<Rightarrow> (bucket_t \<Rightarrow> bucket_t) \<Rightarrow> rf_state" where
  "upd_bucket s i f = put_bucket s i (f (bucket_at s i))"

text \<open>\<open>b->byteidx = 0; b->bitidx = 7; b->data[0] = 0;\<close>\<close>

definition start_frame :: "bucket_t \<Rightarrow> bucket_t" where
  "start_frame b = data_store (b\<lparr>byteidx := 0, bitidx := 7\<rparr>) 0 0"

definition smooth_zero :: "u8 \<Rightarrow> u8 \<Rightarrow> bucket_t \<Rightarrow> bucket_t" where
  "smooth_zero h l b =
     b\<lparr>zero := \<lparr>hightime = makeavg (hightime (zero b)) h,
                 lowtime = makeavg (lowtime (zero b)) l\<rparr>\<rparr>"

definition smooth_one :: "u8 \<Rightarrow> u8 \<Rightarrow> bucket_t \<Rightarrow> bucket_t" where
  "smooth_one h l b =
     b\<lparr>one := \<lparr>hightime = makeavg (hightime (one b)) h,
                lowtime = makeavg (lowtime (one b)) l\<rparr>\<rparr>"

text \<open>The code at the label \<open>retry_sync\<close>: the first pulse of a message.\<close>

definition retry_sync :: "config \<Rightarrow> nat \<Rightarrow> rf_state \<Rightarrow> rf_state" where
  "retry_sync cfg i s =
     (let h = uint (pulse_high s); l = uint (pulse_low s)
      in if h < TSCALE 530 \<and> h > TSCALE 420 \<and> l < TSCALE 9000 \<and> l > TSCALE 8500
         then upd_bucket (s\<lparr>OCR1A := 4600, TIMSK1 := BV OCIE1A\<rparr>) i
                (\<lambda>b. start_frame (b\<lparr>sync := 0, state := STATE_TCM97001\<rparr>))
         else if h < TSCALE 600 \<and> h > TSCALE 140 \<and> l < TSCALE 17000 \<and> l > TSCALE 2500
         then upd_bucket (s\<lparr>OCR1A := SILENCE, TIMSK1 := BV OCIE1A\<rparr>) i
                (\<lambda>b. start_frame (b\<lparr>sync := 0, state := STATE_IT\<rparr>))
         else if h > TSCALE 1600 \<or> l > TSCALE 1600 then s
         else upd_bucket s i
                (\<lambda>b. b\<lparr>zero := \<lparr>hightime = ucast (pulse_high s), lowtime = ucast (pulse_low s)\<rparr>,
                       sync := 1, state := STATE_SYNC\<rparr>))"

text \<open>
  The block for the states IT and ITV3 at a rising edge: \<open>Inl\<close> when it returns
  from the interrupt, \<open>Inr\<close> when the interrupt goes on.
\<close>

definition edge_it :: "config \<Rightarrow> nat \<Rightarrow> rf_state \<Rightarrow> rf_state + rf_state" where
  "edge_it cfg i s =
     (let b = bucket_at s i; ph = pulse_high s; pl = pulse_low s
      in if state b = STATE_IT \<or> state b = STATE_ITV3
         then
           if uint pl > TSCALE 3000 then Inl (upd_bucket s i (\<lambda>b. b\<lparr>sync := 0\<rparr>))
           else if sync b = 0
           then
             if uint pl > TSCALE 2400
             then Inl ((upd_bucket s i (\<lambda>b. b\<lparr>state := STATE_ITV3\<rparr>))\<lparr>TCNT1 := 0\<rparr>)
             else if state b = STATE_ITV3
             then Inr (upd_bucket s i (\<lambda>b. b\<lparr>sync := 1,
                         zero := \<lparr>hightime = ucast ph,
                                  lowtime = (if (if LONG_PULSE cfg then pl - 1 > ph
                                                 else uint pl - 1 > uint ph)
                                             then ucast pl else ucast (ph * 5))\<rparr>,
                         one := \<lparr>hightime = ucast ph, lowtime = ucast ph\<rparr>\<rparr>))
             else if (if LONG_PULSE cfg then ph * 2 > pl else uint ph * 2 > uint pl)
             then Inl (upd_bucket s i (\<lambda>b. b\<lparr>sync := 1, state := STATE_RESET\<rparr>))
             else Inr (upd_bucket s i (\<lambda>b. b\<lparr>sync := 1,
                         zero := \<lparr>hightime = ucast ph, lowtime = ucast (pl + 1)\<rparr>,
                         one := \<lparr>hightime = ucast (pl + 1), lowtime = ucast ph\<rparr>\<rparr>))
           else Inr s
         else Inr s)"

text \<open>The block for the first pulse in state TCM97001.\<close>

definition edge_tcm97001 :: "nat \<Rightarrow> rf_state \<Rightarrow> rf_state" where
  "edge_tcm97001 i s =
     (let b = bucket_at s i; zl = (ucast (pulse_low s) :: u8)
      in if state b = STATE_TCM97001 \<and> sync b = 0
         then upd_bucket s i (\<lambda>b. b\<lparr>sync := 1,
                zero := \<lparr>hightime = ucast (pulse_high s), lowtime = zl\<rparr>,
                one := \<lparr>hightime = ucast (pulse_high s),
                        lowtime = (if uint (pulse_low s) < 187 then zl * 2 else zl div 2)\<rparr>\<rparr>)
         else s)"

text \<open>The chain \<open>if(b->state == STATE_RESET) ... else if ...\<close> that ends the interrupt.\<close>

definition edge_collect :: "config \<Rightarrow> nat \<Rightarrow> rf_state \<Rightarrow> rf_state" where
  "edge_collect cfg i s =
     (let b = bucket_at s i; ph = pulse_high s; pl = pulse_low s;
          h8 = (ucast ph :: u8); l8 = (ucast pl :: u8)
      in if state b = STATE_RESET then retry_sync cfg i s
         else if state b = STATE_SYNC
         then
           if wave_equals (zero b) h8 l8 (state b) \<noteq> 0
           then upd_bucket s i (\<lambda>b. (smooth_zero h8 l8 b)\<lparr>sync := sync b + 1\<rparr>)
           else if sync b \<ge> 4
           then
             let s1 = s\<lparr>OCR1A := SILENCE\<rparr>;
                 zsum = uint (hightime (zero b)) + uint (lowtime (zero b));
                 s2 = (if sync b \<ge> 12 \<and> zsum > TSCALE 1600
                       then upd_bucket s1 i (\<lambda>b. b\<lparr>state := STATE_HMS\<rparr>)
                       else if sync b \<ge> 10 \<and> zsum < TSCALE 600
                       then (upd_bucket s1 i (\<lambda>b. b\<lparr>state := STATE_ESA\<rparr>))\<lparr>OCR1A := 1000\<rparr>
                       else upd_bucket s1 i (\<lambda>b. b\<lparr>state := STATE_COLLECT\<rparr>));
                 s3 = upd_bucket s2 i
                        (\<lambda>b. start_frame (b\<lparr>one := \<lparr>hightime = h8, lowtime = l8\<rparr>\<rparr>))
             in s3\<lparr>TIMSK1 := BV OCIE1A\<rparr>
           else retry_sync cfg i (upd_bucket s i (\<lambda>b. b\<lparr>state := STATE_RESET\<rparr>))
         else if state b = STATE_REVOLT
         then
           if uint ph < 11
           then upd_bucket (addbit s i 0) i (smooth_zero h8 l8)
           else upd_bucket (addbit s i 1) i (smooth_one h8 l8)
         else if state b = STATE_TCM97001
         then
           if uint pl > 110 \<and> uint pl < 140
           then upd_bucket (addbit s i 0) i (smooth_zero h8 l8)
           else if uint pl > 230 \<and> uint pl < 270
           then upd_bucket (addbit s i 1) i (smooth_one h8 l8)
           else s
         else if state b = STATE_ITV3
         then addbit s i (wave_equals_itV3 h8 l8)
         else if wave_equals (one b) h8 l8 (state b) \<noteq> 0
         then upd_bucket (addbit s i 1) i (smooth_one h8 l8)
         else if wave_equals (zero b) h8 l8 (state b) \<noteq> 0
         then upd_bucket (addbit s i 0) i (smooth_zero h8 l8)
         else if state b \<noteq> STATE_IT then reset_input s
         else s)"

text \<open>A rising edge, after \<open>lowtime\<close> is set and the timer restarted.\<close>

definition edge_rising :: "config \<Rightarrow> nat \<Rightarrow> rf_state \<Rightarrow> rf_state" where
  "edge_rising cfg i s =
     (case edge_it cfg i s of
        Inl s1 \<Rightarrow> s1
      | Inr s1 \<Rightarrow>
          let s2 = edge_tcm97001 i s1;
              b = bucket_at s2 i;
              h = uint (pulse_high s2); l = uint (pulse_low s2)
          in if state b = STATE_HMS \<or> state b = STATE_ESA then addbit s2 i 0
             else if h > TSCALE 9000 \<and> h < TSCALE 12000 \<and> l > TSCALE 150 \<and> l < TSCALE 540
             then upd_bucket (s2\<lparr>OCR1A := SILENCE, TIMSK1 := BV OCIE1A\<rparr>) i
                    (\<lambda>b. start_frame
                           (b\<lparr>zero := \<lparr>hightime = 6, lowtime = 14\<rparr>,
                              one := \<lparr>hightime = 19, lowtime = 14\<rparr>,
                              sync := 1, state := STATE_REVOLT\<rparr>))
             else edge_collect cfg i s2)"

definition CC1100_INTVECT :: "config \<Rightarrow> edge_in \<Rightarrow> rf_state \<Rightarrow> rf_state" where
  "CC1100_INTVECT cfg e s =
     (let c = pulse_cut cfg (drop_bit 4 (tcnt1 e));
          i = unat (bucket_in s);
          b = bucket_at s i
      in if state b = STATE_HMS \<and> uint c < TSCALE 750 then s
         else if state b = STATE_HMS \<and> uint c > TSCALE 1250 then reset_input s
         else if state b = STATE_ESA \<and> uint c < TSCALE 375 then s
         else if state b = STATE_ESA \<and> uint c > TSCALE 625 then reset_input s
         else if \<not> pin_set e
         then
           let s1 = (if state b = STATE_HMS \<or> state b = STATE_ESA
                     then (addbit s i 1)\<lparr>TCNT1 := 0\<rparr> else s)
           in s1\<lparr>pulse_high := c\<rparr>
         else edge_rising cfg i
                (s\<lparr>pulse_low := pulse_cut cfg (c - pulse_high s), TCNT1 := 0\<rparr>))"

subsection \<open>The system\<close>

text \<open>
  The statics start as zero (\<open>tx_init\<close> writes \<open>STATE_RESET\<close>, which is 0, into
  the buckets).  A step is one run of the edge interrupt, of the compare
  interrupt or of the task, or \<open>set_txreport\<close> storing a new \<open>tx_report\<close>.
\<close>

definition init_bucket :: "config \<Rightarrow> bucket_t" where
  "init_bucket cfg =
     \<lparr>state = STATE_RESET, byteidx = 0, sync = 0, bitidx = 0,
      data = replicate (MAXMSG cfg) 0,
      zero = \<lparr>hightime = 0, lowtime = 0\<rparr>, one = \<lparr>hightime = 0, lowtime = 0\<rparr>\<rparr>"

definition init_state :: "config \<Rightarrow> rf_state" where
  "init_state cfg =
     \<lparr>tx_report = 0, bucket_array = replicate (RCV_BUCKETS cfg) (init_bucket cfg),
      bucket_in = 0, bucket_out = 0, bucket_nrused = 0,
      oby = 0, obuf = replicate (MAXMSG cfg) 0, nibble = 0,
      roby = 0, robuf = replicate (MAXMSG cfg) 0, reptime = 0,
      pulse_high = 0, pulse_low = 0,
      isrep = False, isnotrep = False, packageOK = False,
      TIMSK1 = 0, OCR1A = 0, TCNT1 = 0, out_log = []\<rparr>"

inductive reachable :: "config \<Rightarrow> rf_state \<Rightarrow> bool" for cfg :: config where
  start: "reachable cfg (init_state cfg)"
| edge: "reachable cfg s \<Longrightarrow> reachable cfg (CC1100_INTVECT cfg e s)"
| silence: "reachable cfg s \<Longrightarrow> reachable cfg (TIMER1_COMPA_vect cfg s)"
| task: "reachable cfg s \<Longrightarrow> reachable cfg (RfAnalyze_Task cfg inp s)"
| set_txreport: "reachable cfg s \<Longrightarrow> reachable cfg (s\<lparr>tx_report := v\<rparr>)"


subsection \<open>The bit stream of a bucket; what a decoder may change\<close>

text \<open>
  Bit \<open>p\<close> of the stream that \<open>addbit\<close> writes and \<open>getbit\<close> reads: the bytes
  in order, each from bit 7 down to bit 0.
\<close>

definition stream_bit :: "u8 list \<Rightarrow> nat \<Rightarrow> bool" where
  "stream_bit d p = bit (d ! (p div 8)) (7 - p mod 8)"

text \<open>\<open>s'\<close> is \<open>s\<close> but for the decoder output \<open>oby\<close>, \<open>obuf\<close> and \<open>nibble\<close>.\<close>

definition scratch_only :: "rf_state \<Rightarrow> rf_state \<Rightarrow> bool" where
  "scratch_only s s' = (\<exists>a b c. s' = s\<lparr>oby := a, obuf := b, nibble := c\<rparr>)"

subsection \<open>Example inputs\<close>

text \<open>
  A configuration with the values of the culfw headers (20 bytes per message,
  4 buckets, the type tags as the letters of the protocol), and states built on
  it, used to run the model.
\<close>

definition culfw_config :: config where
  "culfw_config =
     \<lparr>MAXMSG = 20, RCV_BUCKETS = 4, LONG_PULSE = True, GIRA_MODE = False,
      TYPE_EM = 0x45, TYPE_HMS = 0x48, TYPE_FHT = 0x54, TYPE_FS20 = 0x46,
      TYPE_KS300 = 0x4B, TYPE_HRM = 0x52, TYPE_ESA = 0x53, TYPE_TX3 = 0x74,
      TYPE_TCM97001 = 0x73, TYPE_REVOLT = 0x72, TYPE_IT = 0x69,
      REP_KNOWN = 0x01, REP_REPEATED = 0x02, REP_BITS = 0x04, REP_MONITOR = 0x08,
      REP_BINTIME = 0x10, REP_RSSI = 0x20, REP_FHTPROTO = 0x40, REP_LCDMON = 0x80,
      REPTIME = 38, TWRAP = 20000,
      FHT_ACK = 0x4B, FHT_ACK2 = 0x69, FHT_CAN_XMIT = 0x53, FHT_CAN_RCV = 0x54,
      FHT_START_XMIT = 0x7D, FHT_END_XMIT = 0x7E\<rparr>"

text \<open>The initial state with bucket 0 replaced.\<close>

definition with_bucket :: "rf_state \<Rightarrow> bucket_t \<Rightarrow> rf_state" where
  "with_bucket s b = s\<lparr>bucket_array := (bucket_array s)[0 := b]\<rparr>"

text \<open>A bucket whose next bit is the last bit of the last byte of \<open>data\<close>.\<close>

definition full_byte_bucket :: bucket_t where
  "full_byte_bucket =
     (init_bucket culfw_config)\<lparr>state := STATE_COLLECT, byteidx := 19, bitidx := 0,
        zero := \<lparr>hightime = 25, lowtime = 23\<rparr>, one := \<lparr>hightime = 38, lowtime = 37\<rparr>\<rparr>"



subsection \<open>What the decoders read and accept\<close>

text \<open>The \<open>input_t\<close> that stands before bit \<open>p\<close> of the stream.\<close>

definition cursor :: "u8 list \<Rightarrow> nat \<Rightarrow> input_t" where
  "cursor d p = \<lparr>in_data = d, in_byte = of_nat (p div 8), in_bit = of_nat (7 - p mod 8)\<rparr>"

text \<open>
  The \<open>n\<close> bits from bit \<open>p\<close> of the stream as a number, the first bit as the
  lowest (\<open>field_lsb\<close>) or as the highest (\<open>field_msb\<close>).
\<close>

definition field_lsb :: "u8 list \<Rightarrow> nat \<Rightarrow> nat \<Rightarrow> u8" where
  "field_lsb d p n = horner_sum of_bool 2 (map (\<lambda>j. stream_bit d (p + j)) [0..<n])"

definition field_msb :: "u8 list \<Rightarrow> nat \<Rightarrow> nat \<Rightarrow> u8" where
  "field_msb d p n = horner_sum of_bool 2 (map (\<lambda>j. stream_bit d (p + (n - 1 - j))) [0..<n])"

text \<open>
  An HMS message as \<open>analyze_hms\<close> takes it: byte \<open>k\<close> is the 8 bits from bit
  \<open>10 * k\<close>, lowest bit first, then its parity bit, then a 0; the seventh byte
  is the XOR of the six before it and has a parity bit only.
\<close>

definition hms_byte :: "u8 list \<Rightarrow> nat \<Rightarrow> u8" where
  "hms_byte d k = field_lsb d (10 * k) 8"

definition hms_parity_ok :: "u8 list \<Rightarrow> nat \<Rightarrow> bool" where
  "hms_parity_ok d k =
     (parity_even_bit (hms_byte d k) = (if stream_bit d (10 * k + 8) then 1 else 0))"

definition hms_stop_ok :: "u8 list \<Rightarrow> nat \<Rightarrow> bool" where
  "hms_stop_ok d k = (\<not> stream_bit d (10 * k + 9))"

definition hms_byte_ok :: "u8 list \<Rightarrow> nat \<Rightarrow> bool" where
  "hms_byte_ok d k = (hms_parity_ok d k \<and> hms_stop_ok d k)"

definition hms_payload :: "u8 list \<Rightarrow> u8 list" where
  "hms_payload d = map (hms_byte d) [0..<6]"

definition hms_valid :: "bucket_t \<Rightarrow> bool" where
  "hms_valid b =
     (69 \<le> bucket_bits b \<and> list_all (hms_byte_ok (data b)) [0..<6] \<and>
      hms_parity_ok (data b) 6 \<and>
      hms_byte (data b) 6 = foldl (XOR) 0 (hms_payload (data b)))"

text \<open>
  An HMS message as the specification words it: the bytes highest bit first,
  each with its parity bit and a 1 after it.
\<close>

definition hms_claimed_byte :: "u8 list \<Rightarrow> nat \<Rightarrow> u8" where
  "hms_claimed_byte d k = field_msb d (10 * k) 8"

definition hms_claimed_valid :: "bucket_t \<Rightarrow> bool" where
  "hms_claimed_valid b =
     (69 \<le> bucket_bits b \<and>
      list_all (\<lambda>k. parity_even_bit (hms_claimed_byte (data b) k) =
                       (if stream_bit (data b) (10 * k + 8) then 1 else 0) \<and>
                     stream_bit (data b) (10 * k + 9)) [0..<6] \<and>
      parity_even_bit (hms_claimed_byte (data b) 6) =
        (if stream_bit (data b) 68 then 1 else 0) \<and>
      hms_claimed_byte (data b) 6 =
        foldl (XOR) 0 (map (hms_claimed_byte (data b)) [0..<6]))"

text \<open>
  The payload \<open>81 D4 12 00 34 9F\<close> with the check byte \<open>EC\<close>, in 69 bits: as
  \<open>analyze_hms\<close> takes it (\<open>hms_bucket\<close>) and as the specification words it
  (\<open>hms_claimed_bucket\<close>).
\<close>

definition hms_bucket :: bucket_t where
  "hms_bucket =
     (init_bucket culfw_config)\<lparr>state := STATE_HMS, byteidx := 8, bitidx := 2,
        data := [0x81, 0x0A, 0xC4, 0x80, 0x00, 0x2C, 0xBE, 0x43, 0x78] @ replicate 11 0\<rparr>"

definition hms_claimed_bucket :: bucket_t where
  "hms_claimed_bucket =
     (init_bucket culfw_config)\<lparr>state := STATE_HMS, byteidx := 8, bitidx := 2,
        data := [0x81, 0x75, 0x11, 0x24, 0x01, 0x34, 0xE7, 0xDE, 0xC8] @ replicate 11 0\<rparr>"

text \<open>
  An ESA message as the specification words it.  \<open>esa_byte d k\<close> is byte \<open>k\<close> of
  the stream, highest bit first.  \<open>esa_payload\<close> goes through the payload
  bytes: each is added to \<open>crc\<close>, put out XORed with \<open>salt\<close>, and gives the next
  \<open>salt\<close> as itself plus \<open>0x24\<close>.  Then one more byte is added to \<open>crc\<close> and put
  out XORed with \<open>0xFF\<close>, and the two bytes after it, as a 16-bit number with
  the high byte first, are subtracted from \<open>crc\<close>.
\<close>

definition esa_byte :: "u8 list \<Rightarrow> nat \<Rightarrow> u8" where
  "esa_byte d k = field_msb d (8 * k) 8"

fun esa_payload :: "u8 list \<Rightarrow> u8 \<Rightarrow> u16 \<Rightarrow> u8 list \<times> u8 \<times> u16" where
  "esa_payload [] salt crc = ([], salt, crc)"
| "esa_payload (b # bs) salt crc =
     (let (out, salt1, crc1) = esa_payload bs (b + 0x24) (crc + ucast b)
      in ((b XOR salt) # out, salt1, crc1))"

definition esa_crc :: "config \<Rightarrow> u8 list \<Rightarrow> u16" where
  "esa_crc cfg d =
     (let n = ESA_DATALEN cfg;
          (out, salt, crc) = esa_payload (map (esa_byte d) [0..<n]) 0x89 (ESA_CRC cfg);
          crc1 = crc + ucast (esa_byte d n)
      in crc1 - (push_bit 8 (ucast (esa_byte d (n + 1))) + ucast (esa_byte d (n + 2))))"

definition esa_output :: "config \<Rightarrow> u8 list \<Rightarrow> u8 list" where
  "esa_output cfg d =
     (let n = ESA_DATALEN cfg;
          (out, salt, crc) = esa_payload (map (esa_byte d) [0..<n]) 0x89 (ESA_CRC cfg)
      in out @ [esa_byte d n XOR 0xFF])"

text \<open>
  An ESA message of 144 bits: sixteen zero bytes and the check bytes \<open>F0 0F\<close>.
\<close>

definition esa_bucket :: bucket_t where
  "esa_bucket =
     (init_bucket culfw_config)\<lparr>state := STATE_ESA, byteidx := 18, bitidx := 7,
        data := replicate 16 0 @ [0xF0, 0x0F, 0, 0]\<rparr>"

text \<open>
  The bytes \<open>analyze_TX3\<close> puts together, highest bit first: byte 0 from the
  first 7 bits under a set bit 7, the bytes 1 to 3 from 8 bits each, byte 4 from
  the last 7 bits above a clear bit 0.
\<close>

definition tx3_pos :: "nat \<Rightarrow> nat" where
  "tx3_pos k = (if k = 0 then 0 else 8 * k - 1)"

definition tx3_byte :: "u8 list \<Rightarrow> nat \<Rightarrow> u8" where
  "tx3_byte d k =
     (if k = 0 then 0x80 OR field_msb d 0 7
      else if k < 4 then field_msb d (tx3_pos k) 8
      else push_bit 1 (field_msb d (tx3_pos k) 7))"

definition tx3_output :: "u8 list \<Rightarrow> u8 list" where
  "tx3_output d = map (tx3_byte d) [0..<5]"

text \<open>
  A bucket of 38 bits that starts with \<open>0100000\<close> and is zero after that: the
  bytes are \<open>A0 00 00 00 00\<close>; the nibbles before the last add up to \<open>0xA\<close>, and the
  last nibble is 0.
\<close>

definition tx3_bucket :: bucket_t where
  "tx3_bucket =
     (init_bucket culfw_config)\<lparr>state := STATE_COLLECT, byteidx := 4, bitidx := 1,
        data := 0x40 # replicate 19 0\<rparr>"

text \<open>
  A state after the IT message \<open>A3 5C 0F\<close> has been decoded, with the same
  three bytes in the repeat buffer from tick 100, and \<open>tx_report\<close> set to
  \<open>REP_KNOWN\<close> alone.
\<close>

definition rep_state :: rf_state where
  "rep_state =
     (init_state culfw_config)
       \<lparr>tx_report := 0x01, oby := 3, obuf := [0xA3, 0x5C, 0x0F] @ replicate 17 0,
        roby := 3, robuf := [0xA3, 0x5C, 0x0F] @ replicate 17 0, reptime := 100\<rparr>"

definition rep_in :: task_in where
  "rep_in = \<lparr>ticks = 110, rssi_mon = 0, rssi_msg = 0, rssi_dump = 0\<rparr>"










text \<open>
  What the specification says of the compare interrupt.  A bucket is published
  when the count of used buckets has gone up by one and \<open>bucket_in\<close> has gone on
  to the next bucket of the ring, the buckets themselves unchanged; it is
  discarded when count and \<open>bucket_in\<close> are as before and the bucket at
  \<open>bucket_in\<close> is back in \<open>STATE_RESET\<close>.
\<close>

definition published :: "config \<Rightarrow> rf_state \<Rightarrow> rf_state \<Rightarrow> bool" where
  "published cfg s s' =
     (bucket_nrused s' = bucket_nrused s + 1 \<and>
      bucket_in s' = (if unat (bucket_in s + 1) = RCV_BUCKETS cfg then 0 else bucket_in s + 1) \<and>
      bucket_array s' = bucket_array s)"

definition discarded :: "rf_state \<Rightarrow> rf_state \<Rightarrow> bool" where
  "discarded s s' =
     (bucket_nrused s' = bucket_nrused s \<and> bucket_in s' = bucket_in s \<and>
      bucket_array s' =
        (bucket_array s)[unat (bucket_in s) :=
           (bucket_at s (unat (bucket_in s)))\<lparr>state := STATE_RESET\<rparr>])"

text \<open>
  The interrupt is filling bucket 0, which is in state \<open>st\<close> with \<open>k\<close> bytes;
  \<open>n\<close> buckets wait for the task, of which bucket \<open>j\<close> is the first.
\<close>

definition silence_state :: "u8 \<Rightarrow> u8 \<Rightarrow> u8 \<Rightarrow> u8 \<Rightarrow> rf_state" where
  "silence_state st k n j =
     (with_bucket (init_state culfw_config)
        ((init_bucket culfw_config)\<lparr>state := st, byteidx := k\<rparr>))
       \<lparr>bucket_nrused := n, bucket_out := j\<rparr>"

text \<open>
  A run of the edge interrupt over a list of edges, and the edges of a pulse
  train: each pulse is a time high and a time low in timer counts, seen as a
  falling edge and the rising edge that ends it.
\<close>

definition edges :: "config \<Rightarrow> edge_in list \<Rightarrow> rf_state \<Rightarrow> rf_state" where
  "edges cfg es s = fold (CC1100_INTVECT cfg) es s"

definition pulse :: "u16 \<Rightarrow> u16 \<Rightarrow> edge_in list" where
  "pulse h l = [\<lparr>tcnt1 = h, pin_set = False\<rparr>, \<lparr>tcnt1 = h + l, pin_set = True\<rparr>]"

text \<open>
  Six pulses of 400 us high and 400 us low, then eighteen of 600 us and 600 us:
  a sync train and 17 bits after the first long pulse.
\<close>

definition fs20_train :: "edge_in list" where
  "fs20_train = concat (replicate 6 (pulse 400 400) @ replicate 18 (pulse 600 600))"

definition train_state :: rf_state where
  "train_state = edges culfw_config fs20_train (init_state culfw_config)"

section \<open>Properties\<close>

subsection \<open>Buckets, addbit and delbit\<close>

lemma bucket_at_put [simp]:
  "i < length (bucket_array s) \<Longrightarrow> bucket_at (put_bucket s i b) i = b"
  by (simp add: bucket_at_def put_bucket_def)

lemma length_put_bucket [simp]:
  "length (bucket_array (put_bucket s i b)) = length (bucket_array s)"
  by (simp add: put_bucket_def)

lemma data_store_cursor [simp]:
  "byteidx (data_store b k v) = byteidx b" "bitidx (data_store b k v) = bitidx b"
  "state (data_store b k v) = state b" "sync (data_store b k v) = sync b"
  "one (data_store b k v) = one b" "length (data (data_store b k v)) = length (data b)"
  by (simp_all add: data_store_def)

lemma data_store_nth:
  "j \<noteq> k \<Longrightarrow> data (data_store b k v) ! j = data b ! j"
  by (simp add: data_store_def)

lemma data_store_same:
  "k < length (data b) \<Longrightarrow> data (data_store b k v) ! k = v"
  by (simp add: data_store_def)

lemma addbit_not_full:
  assumes "i < length (bucket_array s)"
      and "unat (byteidx (bucket_at s i)) < length (data (bucket_at s i))"
  shows "byteidx (bucket_at (addbit s i v) i) =
           (if bitidx (bucket_at s i) = 0 then byteidx (bucket_at s i) + 1 else byteidx (bucket_at s i))"
    and "bitidx (bucket_at (addbit s i v) i) =
           (if bitidx (bucket_at s i) = 0 then 7 else bitidx (bucket_at s i) - 1)"
    and "state (bucket_at (addbit s i v) i) = state (bucket_at s i)"
    and "sync (bucket_at (addbit s i v) i) = sync (bucket_at s i)"
    and "one (bucket_at (addbit s i v) i) = one (bucket_at s i)"
    and "length (bucket_array (addbit s i v)) = length (bucket_array s)"
    and "length (data (bucket_at (addbit s i v) i)) = length (data (bucket_at s i))"
  using assms by (simp_all add: addbit_def Let_def)

lemma delbit_cursor:
  assumes "i < length (bucket_array s)"
  shows "byteidx (bucket_at (delbit s i) i) =
           (if bitidx (bucket_at s i) = 7 then byteidx (bucket_at s i) - 1 else byteidx (bucket_at s i))"
    and "bitidx (bucket_at (delbit s i) i) =
           (if bitidx (bucket_at s i) = 7 then 0 else bitidx (bucket_at s i) + 1)"
    and "data (bucket_at (delbit s i) i) = data (bucket_at s i)"
    and "state (bucket_at (delbit s i) i) = state (bucket_at s i)"
    and "sync (bucket_at (delbit s i) i) = sync (bucket_at s i)"
    and "one (bucket_at (delbit s i) i) = one (bucket_at s i)"
    and "zero (bucket_at (delbit s i) i) = zero (bucket_at s i)"
  using assms by (simp_all add: delbit_def Let_def)

lemma u8_pred_not_7: "(x::u8) \<le> 7 \<Longrightarrow> x \<noteq> 0 \<Longrightarrow> x - 1 \<noteq> 7"
  by unat_arith

lemma addbit_delbit_cursor:
  assumes "i < length (bucket_array s)"
      and "unat (byteidx (bucket_at s i)) < length (data (bucket_at s i))"
      and "bitidx (bucket_at s i) \<le> 7"
  shows "byteidx (bucket_at (delbit (addbit s i v) i) i) = byteidx (bucket_at s i)"
    and "bitidx (bucket_at (delbit (addbit s i v) i) i) = bitidx (bucket_at s i)"
  using assms by (simp_all add: delbit_cursor addbit_not_full u8_pred_not_7)




lemma addbit_full:
  "length (data (bucket_at s i)) \<le> unat (byteidx (bucket_at s i)) \<Longrightarrow>
   addbit s i v = reset_input s"
  by (simp add: addbit_def Let_def)

lemma reset_input_data:
  "map data (bucket_array (reset_input s)) = map data (bucket_array s)"
proof (cases "unat (bucket_in s) < length (bucket_array s)")
  case True
  then show ?thesis
    by (intro nth_equalityI)
       (simp_all add: reset_input_def Let_def put_bucket_def bucket_at_def nth_list_update)
next
  case False
  then show ?thesis
    by (simp add: reset_input_def Let_def put_bucket_def list_update_beyond)
qed

lemma addbit_stores_in_bounds:
  assumes "unat (byteidx b) < length (data b)" and "length (data b) \<le> 255"
  shows "(\<forall>k \<in> set (addbit_stores b v). k < length (data b)) \<longleftrightarrow>
         \<not> (bitidx b = 0 \<and> unat (byteidx b) + 1 = length (data b))"
proof -
  have "unat (byteidx b + 1) = unat (byteidx b) + 1"
    using assms by (simp add: unat_word_ariths)
  with assms show ?thesis by (auto simp: addbit_stores_def)
qed

subsection \<open>Decoders write only their output\<close>

lemma scratch_onlyI: "s' = s\<lparr>oby := a, obuf := b, nibble := c\<rparr> \<Longrightarrow> scratch_only s s'"
  unfolding scratch_only_def by blast

lemma scratch_only_refl [simp]: "scratch_only s s"
  by (rule scratch_onlyI [where a = "oby s" and b = "obuf s" and c = "nibble s"]) simp

lemma scratch_only_trans:
  assumes "scratch_only s s1" and "scratch_only s1 s2"
  shows "scratch_only s s2"
proof -
  from assms obtain a b c a' b' c'
    where "s1 = s\<lparr>oby := a, obuf := b, nibble := c\<rparr>"
      and "s2 = s1\<lparr>oby := a', obuf := b', nibble := c'\<rparr>"
    unfolding scratch_only_def by blast
  then have "s2 = s\<lparr>oby := a', obuf := b', nibble := c'\<rparr>" by simp
  then show ?thesis by (rule scratch_onlyI)
qed

lemma scratch_only_upd [simp]:
  "scratch_only s (s\<lparr>oby := a\<rparr>)" "scratch_only s (s\<lparr>obuf := b\<rparr>)" "scratch_only s (s\<lparr>nibble := c\<rparr>)"
    apply (rule scratch_onlyI [where a = a and b = "obuf s" and c = "nibble s"], simp)
   apply (rule scratch_onlyI [where a = "oby s" and b = b and c = "nibble s"], simp)
  apply (rule scratch_onlyI [where a = "oby s" and b = "obuf s" and c = c], simp)
  done

lemma scratch_only_after:
  "scratch_only s s' \<Longrightarrow> scratch_only s (s'\<lparr>oby := a\<rparr>)"
  "scratch_only s s' \<Longrightarrow> scratch_only s (s'\<lparr>obuf := b\<rparr>)"
  "scratch_only s s' \<Longrightarrow> scratch_only s (s'\<lparr>nibble := c\<rparr>)"
  by (erule scratch_only_trans, simp)+

lemma scratch_only_fields:
  assumes "scratch_only s s'"
  shows "bucket_array s' = bucket_array s" "bucket_nrused s' = bucket_nrused s"
    "bucket_in s' = bucket_in s" "bucket_out s' = bucket_out s" "tx_report s' = tx_report s"
    "pulse_high s' = pulse_high s" "isnotrep s' = isnotrep s" "out_log s' = out_log s"
    "roby s' = roby s" "robuf s' = robuf s" "reptime s' = reptime s"
  using assms unfolding scratch_only_def by auto

lemma analyze_body_scratch:
  "analyze_body cfg d t (iby, ibi, obi, s) = Inl s' \<Longrightarrow> scratch_only s s'"
  "analyze_body cfg d t (iby, ibi, obi, s) = Inr (iby', ibi', obi', s') \<Longrightarrow> scratch_only s s'"
  by (auto simp: analyze_body_def Let_def scratch_only_after split: if_splits)

lemma analyze_loop_scratch:
  "analyze_loop cfg d t mx cnt x = r \<Longrightarrow>
   scratch_only (snd (snd (snd x))) (case r of Inl s' \<Rightarrow> s' | Inr (c, ob, s') \<Rightarrow> s')"
proof (induction cfg d t mx cnt x arbitrary: r rule: analyze_loop.induct)
  case (1 cfg d t mx cnt x)
  obtain iby ibi obi s where x: "x = (iby, ibi, obi, s)" by (cases x) auto
  show ?case
  proof (cases "cnt < mx")
    case False
    with "1.prems" show ?thesis by (subst (asm) analyze_loop.simps) (auto simp: x)
  next
    case True
    show ?thesis
    proof (cases "analyze_body cfg d t x")
      case (Inl s1)
      with True "1.prems" analyze_body_scratch(1) [of cfg d t iby ibi obi s s1]
      show ?thesis by (subst (asm) analyze_loop.simps) (auto simp: x)
    next
      case (Inr x1)
      obtain iby1 ibi1 obi1 s1 where x1: "x1 = (iby1, ibi1, obi1, s1)" by (cases x1) auto
      have r: "analyze_loop cfg d t mx (cnt + 1) x1 = r"
        using True Inr "1.prems" by (subst (asm) analyze_loop.simps) simp
      have "scratch_only s s1"
        using Inr analyze_body_scratch(2) [of cfg d t iby ibi obi s] by (simp add: x x1)
      moreover have "scratch_only s1 (case r of Inl s' \<Rightarrow> s' | Inr (c, ob, s') \<Rightarrow> s')"
        using "1.IH" [OF True Inr r] by (simp add: x1)
      ultimately show ?thesis by (simp add: x) (rule scratch_only_trans)
    qed
  qed
qed

lemma analyze_loop_scratch':
  "scratch_only s (case analyze_loop cfg d t mx cnt (iby, ibi, obi, s) of
                     Inl s' \<Rightarrow> s' | Inr (c, ob, s') \<Rightarrow> s')"
  using analyze_loop_scratch [OF refl, where x = "(iby, ibi, obi, s)"] by simp

lemma analyze_loop_Inl:
  "analyze_loop cfg d t mx cnt (iby, ibi, obi, s) = Inl s' \<Longrightarrow> scratch_only s s'"
  using analyze_loop_scratch' [of s cfg d t mx cnt iby ibi obi] by simp

lemma analyze_loop_Inr:
  "analyze_loop cfg d t mx cnt (iby, ibi, obi, s) = Inr (c, ob, s') \<Longrightarrow> scratch_only s s'"
  using analyze_loop_scratch' [of s cfg d t mx cnt iby ibi obi] by simp

lemma analyze_scratch: "scratch_only s (snd (analyze cfg b t s))"
proof -
  let ?s1 = "s\<lparr>nibble := 0, oby := 0, obuf := (obuf s)[0 := 0]\<rparr>"
  have s1: "scratch_only s ?s1" by (intro scratch_only_after) simp
  show ?thesis
  proof (cases "analyze_loop cfg (data b) t (word_of_int (bucket_bits b)) 0 (0, 7, 7, ?s1)")
    case (Inl s')
    from scratch_only_trans [OF s1 analyze_loop_Inl [OF Inl]] Inl
    show ?thesis by (simp add: analyze_def)
  next
    case (Inr y)
    obtain c ob s' where y: "y = (c, ob, s')" by (cases y) auto
    from scratch_only_trans [OF s1 analyze_loop_Inr [OF Inr [unfolded y]]] Inr y
    show ?thesis by (simp add: analyze_def Let_def scratch_only_after)
  qed
qed


lemma data_store_data: "data (data_store b k v) = (data b)[k := v]"
  by (simp add: data_store_def list_update_beyond)

lemma bit_BV: "bit (BV n) j \<longleftrightarrow> j = n \<and> n < 8"
  by (auto simp: BV_def bit_simps)

lemma addbit_data:
  assumes "i < length (bucket_array s)"
      and "unat (byteidx (bucket_at s i)) < length (data (bucket_at s i))"
  shows "data (bucket_at (addbit s i v) i) =
           (let b = bucket_at s i;
                d1 = (if v \<noteq> 0
                      then (data b)[unat (byteidx b) := data b ! unat (byteidx b) OR BV (unat (bitidx b))]
                      else data b)
            in if bitidx b = 0 then d1[unat (byteidx b + 1) := 0] else d1)"
  using assms by (simp add: addbit_def Let_def data_store_data)

lemma nat_cursor:
  "(bi::u8) \<le> 7 \<Longrightarrow> nat (uint (by::u8) * 8 + (7 - uint bi)) = unat by * 8 + (7 - unat bi)"
proof -
  assume "bi \<le> 7"
  then have "uint bi \<le> 7" by (simp add: word_le_def)
  moreover have "0 \<le> uint bi" "0 \<le> uint by" by simp_all
  ultimately show ?thesis
    unfolding unat_eq_nat_uint by (simp add: nat_add_distrib nat_mult_distrib nat_diff_distrib)
qed

lemma uint_pred: "(x::u8) \<noteq> 0 \<Longrightarrow> uint (x - 1) = uint x - 1"
  by uint_arith

lemma uint_succ: "(x::u8) < 255 \<Longrightarrow> uint (x + 1) = uint x + 1"
  apply uint_arith
  apply simp
  done

lemma nat_bucket_bits:
  "bitidx b \<le> 7 \<Longrightarrow> nat (bucket_bits b) = unat (byteidx b) * 8 + (7 - unat (bitidx b))"
  unfolding bucket_bits_def by (rule nat_cursor)

lemma cursor_pos:
  assumes "k \<le> (7::nat)"
  shows "(n * 8 + (7 - k)) div 8 = n" "7 - (n * 8 + (7 - k)) mod 8 = k"
proof -
  define j where "j = 7 - k"
  have j: "j < 8" "7 - j = k" using assms by (simp_all add: j_def)
  show "(n * 8 + (7 - k)) div 8 = n" unfolding j_def [symmetric] using j(1) by simp
  show "7 - (n * 8 + (7 - k)) mod 8 = k" unfolding j_def [symmetric] using j by simp
qed

lemma before_cursor:
  assumes "p < n * 8 + (7 - k)" "k \<le> (7::nat)"
  shows "p div 8 < n \<or> (p div 8 = n \<and> k < 7 - p mod 8)"
proof -
  have "p = 8 * (p div 8) + p mod 8" by simp
  moreover have "p mod 8 < 8" by simp
  ultimately show ?thesis using assms by linarith
qed

lemma addbit_bits:
  assumes i: "i < length (bucket_array s)"
      and nf: "unat (byteidx (bucket_at s i)) < length (data (bucket_at s i))"
      and len: "length (data (bucket_at s i)) \<le> 255"
      and bi: "bitidx (bucket_at s i) \<le> 7"
  shows "bucket_bits (bucket_at (addbit s i v) i) = bucket_bits (bucket_at s i) + 1"
    and "stream_bit (data (bucket_at (addbit s i v) i)) (nat (bucket_bits (bucket_at s i))) =
           (v \<noteq> 0 \<or> stream_bit (data (bucket_at s i)) (nat (bucket_bits (bucket_at s i))))"
    and "\<forall>p < nat (bucket_bits (bucket_at s i)).
           stream_bit (data (bucket_at (addbit s i v) i)) p = stream_bit (data (bucket_at s i)) p"
proof -
  define b where "b = bucket_at s i"
  define n where "n = unat (byteidx b)"
  define k where "k = unat (bitidx b)"
  define d1 where "d1 = (if v \<noteq> 0 then (data b)[n := data b ! n OR BV k] else data b)"
  define d2 where "d2 = (if bitidx b = 0 then d1[Suc n := 0] else d1)"
  have by1: "unat (byteidx b + 1) = Suc n"
    using nf len by (simp add: unat_word_ariths b_def n_def)
  have k7: "k \<le> 7" using bi by (simp add: word_le_nat_alt b_def k_def)
  have k0: "bitidx b = 0 \<longleftrightarrow> k = 0" by (simp add: k_def unat_eq_0)
  have d: "data (bucket_at (addbit s i v) i) = d2"
    using addbit_data [OF i nf, of v] by1 k0
    by (simp add: Let_def b_def [symmetric] n_def [symmetric] k_def [symmetric] d1_def d2_def)
  have nb: "nat (bucket_bits b) = n * 8 + (7 - k)"
    using nat_bucket_bits [of b] bi by (simp add: b_def n_def k_def)
  have lt: "byteidx b < 255"
    using nf len by (simp add: word_less_nat_alt b_def)
  show "bucket_bits (bucket_at (addbit s i v) i) = bucket_bits (bucket_at s i) + 1"
  proof (cases "bitidx b = 0")
    case True
    then show ?thesis
      using addbit_not_full(1,2) [OF i nf, of v] uint_succ [OF lt]
      by (simp add: bucket_bits_def b_def [symmetric])
  next
    case False
    then show ?thesis
      using addbit_not_full(1,2) [OF i nf, of v] uint_pred [OF False]
      by (simp add: bucket_bits_def b_def [symmetric])
  qed
  have len1: "n < length (data b)" using nf by (simp add: b_def n_def)
  have at_n: "d2 ! n = (if v \<noteq> 0 then data b ! n OR BV k else data b ! n)"
    using len1 by (simp add: d2_def d1_def)
  show "stream_bit (data (bucket_at (addbit s i v) i)) (nat (bucket_bits (bucket_at s i))) =
           (v \<noteq> 0 \<or> stream_bit (data (bucket_at s i)) (nat (bucket_bits (bucket_at s i))))"
    unfolding d b_def [symmetric] nb stream_bit_def cursor_pos [OF k7] at_n
    using k7 by (simp add: bit_or_iff bit_BV)
  show "\<forall>p < nat (bucket_bits (bucket_at s i)).
           stream_bit (data (bucket_at (addbit s i v) i)) p = stream_bit (data (bucket_at s i)) p"
    unfolding d b_def [symmetric] nb
  proof (intro allI impI)
    fix p assume "p < n * 8 + (7 - k)"
    from before_cursor [OF this k7]
    show "stream_bit d2 p = stream_bit (data b) p"
    proof
      assume "p div 8 < n"
      then have "d2 ! (p div 8) = data b ! (p div 8)"
        by (simp add: d2_def d1_def)
      then show ?thesis by (simp add: stream_bit_def)
    next
      assume "p div 8 = n \<and> k < 7 - p mod 8"
      then show ?thesis
        unfolding stream_bit_def using at_n by (simp add: bit_or_iff bit_BV)
    qed
  qed
qed


lemma step_ks300_failed:
  assumes "fst (step_ks300 cfg i (0, s)) = 0"
  shows "\<exists>s3. snd (step_ks300 cfg i (0, s)) = delbit s3 i \<and>
              bucket_array s3 =
                bucket_array (addbit s i (wave_equals (one (bucket_at s i)) (ucast (pulse_high s))
                                            (lowtime (one (bucket_at s i))) (state (bucket_at s i))))"
proof -
  define s1 where "s1 = addbit s i (wave_equals (one (bucket_at s i)) (ucast (pulse_high s))
                                            (lowtime (one (bucket_at s i))) (state (bucket_at s i)))"
  obtain r s2 where a: "analyze cfg (bucket_at s1 i) (TYPE_KS300 cfg) s1 = (r, s2)"
    by (cases "analyze cfg (bucket_at s1 i) (TYPE_KS300 cfg) s1") auto
  have s2: "scratch_only s1 s2"
    using analyze_scratch [of s1 cfg "bucket_at s1 i" "TYPE_KS300 cfg"] a by simp
  then have s2': "scratch_only s1 (s2\<lparr>oby := oby s2 - 1\<rparr>)"
    by (rule scratch_only_after)
  show ?thesis
    using assms a scratch_only_fields(1) [OF s2] scratch_only_fields(1) [OF s2']
    unfolding step_ks300_def s1_def [symmetric]
    by (auto simp: Let_def s1_def [symmetric] split: if_splits)
qed


text \<open>
  C10.  \<open>addbit\<close> with \<open>byteidx >= MAXMSG\<close> is \<open>reset_input\<close> and writes no
  \<open>data\<close> (\<open>addbit_full\<close>, \<open>reset_input_data\<close>).  With \<open>byteidx < MAXMSG\<close> the
  stores stay inside \<open>data[0 .. MAXMSG-1]\<close> except in one case
  (\<open>addbit_stores_in_bounds\<close>): when the bit written is the last bit of the last
  byte, \<open>data[++byteidx] = 0\<close> stores to \<open>data[MAXMSG]\<close>.  Here, with 20 bytes of
  \<open>data\<close>, \<open>byteidx = 19\<close> and \<open>bitidx = 0\<close>: the stores go to the indices 19 and
  20, and the byte after the array, \<open>zero.hightime\<close>, becomes 0.
\<close>

theorem addbit_last_byte_stores_past_data:
  "addbit_stores full_byte_bucket 1 = [19, 20] \<and>
   length (data full_byte_bucket) = 20 \<and>
   zero full_byte_bucket = \<lparr>hightime = 25, lowtime = 23\<rparr> \<and>
   zero (bucket_at (addbit (with_bucket (init_state culfw_config) full_byte_bucket) 0 1) 0) =
     \<lparr>hightime = 0, lowtime = 23\<rparr>"
  by code_simp


subsection \<open>getbit and getbits on the bit stream\<close>

lemma and_BV_iff: "k < 8 \<Longrightarrow> (x AND BV k \<noteq> 0) = bit x k"
  unfolding BV_def
  by (metis and_exp_eq_0_iff_not_bit push_bit_of_1)

lemma u8_of_nat_small: "n < 256 \<Longrightarrow> unat (of_nat n :: u8) = n"
  by (simp add: unat_of_nat)

lemma div_mod_next:
  "p mod 8 = (7::nat) \<Longrightarrow> (p + 1) div 8 = p div 8 + 1 \<and> (p + 1) mod 8 = 0"
  "p mod 8 < (7::nat) \<Longrightarrow> (p + 1) div 8 = p div 8 \<and> 7 - (p + 1) mod 8 = (7 - p mod 8) - 1"
  by (simp_all add: mod_Suc div_Suc)

lemma u8_of_nat_eq_0: "k < 8 \<Longrightarrow> ((of_nat k :: u8) = 0) = (k = 0)"
  using unat_eq_0 [of "of_nat k :: u8"] by (simp add: unat_of_nat)

lemma getbit_cursor:
  assumes "p < 2048"
  shows "getbit (cursor d p) = (if stream_bit d p then 1 else 0, cursor d (p + 1))"
proof -
  define k where "k = 7 - p mod 8"
  have k: "k < 8" by (simp add: k_def)
  have byte: "unat (of_nat (p div 8) :: u8) = p div 8"
    using assms by (simp add: unat_of_nat)
  have kk: "unat (of_nat k :: u8) = k" using k by (simp add: unat_of_nat)
  note k0 = u8_of_nat_eq_0 [OF k]
  show ?thesis
  proof (cases "k = 0")
    case True
    then have "p mod 8 = 7" by (simp add: k_def)
    from div_mod_next(1) [OF this] show ?thesis
      using True byte and_BV_iff [OF k, of "d ! (p div 8)"]
      by (simp add: getbit_def cursor_def Let_def k_def [symmetric] stream_bit_def)
  next
    case False
    then have "p mod 8 < 7" by (simp add: k_def)
    from div_mod_next(2) [OF this]
    have "(p + 1) div 8 = p div 8" "7 - (p + 1) mod 8 = k - 1"
      by (simp_all add: k_def)
    moreover have "(of_nat k :: u8) - 1 = of_nat (k - 1)"
      using False by (simp add: of_nat_diff)
    ultimately show ?thesis
      using False byte kk k0 and_BV_iff [OF k, of "d ! (p div 8)"]
      by (simp add: getbit_def cursor_def Let_def k_def [symmetric] stream_bit_def)
  qed
qed

lemma bit_field_lsb:
  "bit (field_lsb d p n) j \<longleftrightarrow> j < 8 \<and> j < n \<and> stream_bit d (p + j)"
  by (auto simp: field_lsb_def bit_horner_sum_bit_iff)

lemma bit_field_msb:
  "bit (field_msb d p n) j \<longleftrightarrow> j < 8 \<and> j < n \<and> stream_bit d (p + (n - 1 - j))"
  by (auto simp: field_msb_def bit_horner_sum_bit_iff)

lemma getbits_loop_cursor:
  assumes "n \<le> 8" and "p + n \<le> 2048" and "i \<le> n"
  shows "snd (getbits_loop (cursor d (p + i)) n msb i ret) = cursor d (p + n) \<and>
         (\<forall>j. bit (fst (getbits_loop (cursor d (p + i)) n msb i ret)) j \<longleftrightarrow>
                bit ret j \<or>
                (if msb \<noteq> 0 then j < n - i \<and> stream_bit d (p + (n - 1 - j))
                 else i \<le> j \<and> j < n \<and> stream_bit d (p + j)))"
  using assms(3)
proof (induction "n - i" arbitrary: i ret)
  case 0
  then have "i = n" by simp
  then show ?case by (subst getbits_loop.simps)+ auto
next
  case (Suc m)
  then have lt: "i < n" and m: "m = n - (i + 1)" and le: "i + 1 \<le> n" by simp_all
  have pi: "p + i < 2048" using lt assms(2) by simp
  define pos where "pos = (if msb \<noteq> 0 then n - i - 1 else i)"
  have pos: "pos < 8" using lt assms(1) by (auto simp: pos_def)
  define ret1 where "ret1 = (if stream_bit d (p + i) then ret OR BV pos else ret)"
  have step: "getbits_loop (cursor d (p + i)) n msb i ret =
              getbits_loop (cursor d (p + (i + 1))) n msb (i + 1) ret1"
    using lt getbit_cursor [OF pi, of d]
    by (subst getbits_loop.simps) (simp add: Let_def ret1_def pos_def add.assoc)
  have b1: "bit ret1 j \<longleftrightarrow> bit ret j \<or> (stream_bit d (p + i) \<and> j = pos)" for j
    using pos by (auto simp: ret1_def bit_or_iff bit_BV)
  note IH = Suc.hyps(1) [OF m le, of ret1]
  show ?case
  proof (intro conjI allI)
    show "snd (getbits_loop (cursor d (p + i)) n msb i ret) = cursor d (p + n)"
      using IH by (simp add: step)
  next
    fix j
    have "bit (fst (getbits_loop (cursor d (p + i)) n msb i ret)) j \<longleftrightarrow>
          bit ret1 j \<or>
          (if msb \<noteq> 0 then j < n - (i + 1) \<and> stream_bit d (p + (n - 1 - j))
           else i + 1 \<le> j \<and> j < n \<and> stream_bit d (p + j))"
      using IH by (simp add: step)
    also have "\<dots> \<longleftrightarrow>
          bit ret j \<or>
          (if msb \<noteq> 0 then j < n - i \<and> stream_bit d (p + (n - 1 - j))
           else i \<le> j \<and> j < n \<and> stream_bit d (p + j))"
    proof (cases "msb \<noteq> 0")
      case True
      have "j < n - i \<longleftrightarrow> j = n - i - 1 \<or> j < n - (i + 1)" using lt by auto
      moreover have "j = n - i - 1 \<Longrightarrow> p + (n - 1 - j) = p + i" using lt by simp
      ultimately show ?thesis using True by (auto simp: b1 pos_def)
    next
      case False
      have "i \<le> j \<longleftrightarrow> j = i \<or> i + 1 \<le> j" by auto
      then show ?thesis using False lt by (auto simp: b1 pos_def)
    qed
    finally show "bit (fst (getbits_loop (cursor d (p + i)) n msb i ret)) j \<longleftrightarrow>
          bit ret j \<or>
          (if msb \<noteq> 0 then j < n - i \<and> stream_bit d (p + (n - 1 - j))
           else i \<le> j \<and> j < n \<and> stream_bit d (p + j))" .
  qed
qed

lemma getbits_cursor:
  assumes "n \<le> 8" and "p + n \<le> 2048"
  shows "getbits (cursor d p) n msb =
           (if msb \<noteq> 0 then field_msb d p n else field_lsb d p n, cursor d (p + n))"
proof -
  note L = getbits_loop_cursor [OF assms, of 0 d msb 0, simplified]
  have "fst (getbits (cursor d p) n msb) =
          (if msb \<noteq> 0 then field_msb d p n else field_lsb d p n)"
    using L assms(1)
    by (intro bit_eqI) (auto simp: getbits_def bit_field_lsb bit_field_msb dest: bit_imp_le_length)
  moreover have "snd (getbits (cursor d p) n msb) = cursor d (p + n)"
    using L by (simp add: getbits_def)
  ultimately show ?thesis by (simp add: prod_eq_iff)
qed

subsection \<open>analyze\_hms\<close>

lemma hms_body:
  assumes k: "k < 6" and oby: "oby s = of_nat k" and len: "6 \<le> length (obuf s)"
  shows "analyze_hms_body (cursor d (10 * k), crc, s) =
           (if hms_byte_ok d k
            then Inr (cursor d (10 * (k + 1)), crc XOR hms_byte d k,
                      s\<lparr>obuf := (obuf s)[k := hms_byte d k]\<rparr>)
            else Inl (s\<lparr>obuf := (obuf s)[k := hms_byte d k]\<rparr>))"
proof -
  have uk: "unat (oby s) = k" using k by (simp add: oby unat_of_nat)
  have g1: "getbits (cursor d (10 * k)) 8 0 = (hms_byte d k, cursor d (10 * k + 8))"
    using k by (simp add: getbits_cursor hms_byte_def)
  have g2: "getbit (cursor d (10 * k + 8)) =
              (if stream_bit d (10 * k + 8) then 1 else 0, cursor d (10 * k + 9))"
    using k getbit_cursor [of "10 * k + 8" d] by (simp add: ac_simps)
  have g3: "getbit (cursor d (10 * k + 9)) =
              (if stream_bit d (10 * k + 9) then 1 else 0, cursor d (10 * (k + 1)))"
    using k getbit_cursor [of "10 * k + 9" d] by (simp add: ac_simps)
  have rd: "(obuf s)[k := hms_byte d k] ! k = hms_byte d k"
    using k len by simp
  show ?thesis
    unfolding analyze_hms_body_def
    by (simp add: g1 g2 g3 uk rd Let_def hms_byte_ok_def hms_parity_ok_def hms_stop_ok_def)
qed

lemma hms_loop:
  assumes "k \<le> 6" and "oby s = of_nat k" and "6 \<le> length (obuf s)"
  shows "case analyze_hms_loop (cursor d (10 * k), crc, s) of
           Inl s' \<Rightarrow> \<not> list_all (hms_byte_ok d) [k..<6]
         | Inr (inp, crc', s') \<Rightarrow>
             list_all (hms_byte_ok d) [k..<6] \<and> inp = cursor d 60 \<and>
             crc' = foldl (XOR) crc (map (hms_byte d) [k..<6]) \<and>
             oby s' = 6 \<and> length (obuf s') = length (obuf s) \<and>
             (\<forall>j<6. obuf s' ! j = (if k \<le> j then hms_byte d j else obuf s ! j))"
  using assms
proof (induction "6 - k" arbitrary: k crc s)
  case 0
  then have k: "k = 6" by simp
  show ?case
    using "0.prems"(2) by (subst analyze_hms_loop.simps) (simp add: k)
next
  case (Suc m)
  then have k: "k < 6" and m: "m = 6 - (k + 1)" and k1: "k + 1 \<le> 6" by simp_all
  have lt: "oby s < 6"
    using k Suc.prems(2) by (simp add: word_less_nat_alt unat_of_nat)
  define s1 where "s1 = s\<lparr>obuf := (obuf s)[k := hms_byte d k]\<rparr>"
  note body = hms_body [OF k Suc.prems(2,3), of d crc, folded s1_def]
  have upt: "[k..<6] = k # [k + 1..<6]" using k by (simp add: upt_conv_Cons)
  show ?case
  proof (cases "hms_byte_ok d k")
    case False
    then show ?thesis
      using lt body by (subst analyze_hms_loop.simps) (simp add: upt)
  next
    case True
    define s2 where "s2 = s1\<lparr>oby := oby s1 + 1\<rparr>"
    have o2: "oby s2 = of_nat (k + 1)" by (simp add: s2_def s1_def Suc.prems(2))
    have l2: "6 \<le> length (obuf s2)" using Suc.prems(3) by (simp add: s2_def s1_def)
    have step: "analyze_hms_loop (cursor d (10 * k), crc, s) =
                analyze_hms_loop (cursor d (10 * (k + 1)), crc XOR hms_byte d k, s2)"
      using lt body True by (subst analyze_hms_loop.simps) (simp add: s2_def)
    note IH = Suc.hyps(1) [OF m k1 o2 l2, of "crc XOR hms_byte d k"]
    have old: "obuf s2 ! j = (if j = k then hms_byte d k else obuf s ! j)" if "j < 6" for j
      using that k Suc.prems(3) by (simp add: s2_def s1_def nth_list_update)
    have len: "length (obuf s2) = length (obuf s)" by (simp add: s2_def s1_def)
    have kj: "k \<le> j \<longleftrightarrow> j = k \<or> Suc k \<le> j" for j by auto
    show ?thesis
      unfolding step using IH True
      by (auto simp: upt old len kj split: sum.splits)
  qed
qed

lemma cursor_0: "\<lparr>in_data = d, in_byte = 0, in_bit = 7\<rparr> = cursor d 0"
  by (simp add: cursor_def)

text \<open>
  C3, amended.  With at least 6 bytes of \<open>obuf\<close>, \<open>analyze_hms\<close> succeeds
  exactly when the bucket holds at least 69 bits, each of the 6 payload bytes,
  put together lowest bit first, is followed by its even-parity bit and a 0, and
  the check byte (lowest bit first, with its own parity bit) is the XOR of the 6
  payload bytes.  On success \<open>obuf\<close> holds those 6 bytes and \<open>oby\<close> is 6; a
  bucket with fewer than 69 bits fails.
\<close>

theorem analyze_hms_lsb_first:
  assumes "6 \<le> length (obuf s)"
  shows "fst (analyze_hms b s) = (if hms_valid b then 1 else 0) \<and>
         (hms_valid b \<longrightarrow>
            take 6 (obuf (snd (analyze_hms b s))) = hms_payload (data b) \<and>
            oby (snd (analyze_hms b s)) = 6) \<and>
         (bucket_bits b < 69 \<longrightarrow> fst (analyze_hms b s) = 0)"
proof (cases "bucket_bits b < 69")
  case True
  then show ?thesis by (simp add: analyze_hms_def hms_valid_def Let_def)
next
  case False
  define s0 where "s0 = s\<lparr>oby := 0\<rparr>"
  have o: "oby s0 = of_nat 0" and l: "6 \<le> length (obuf s0)"
    using assms by (simp_all add: s0_def)
  note L = hms_loop [OF le0 o l, of "data b" 0, simplified]
  have run: "analyze_hms b s =
               (case analyze_hms_loop (cursor (data b) 0, 0, s0) of
                  Inl s1 \<Rightarrow> (0, s1)
                | Inr (inp1, crc, s1) \<Rightarrow>
                    let (CRC, inp2) = getbits inp1 8 0;
                        (p, inp3) = getbit inp2
                    in if parity_even_bit CRC \<noteq> p then (0, s1)
                       else if crc \<noteq> CRC then (0, s1)
                       else (1, s1))"
    using False by (simp add: analyze_hms_def Let_def cursor_0 s0_def)
  show ?thesis
  proof (cases "analyze_hms_loop (cursor (data b) 0, 0, s0)")
    case (Inl s1)
    with L have "\<not> hms_valid b" by (simp add: hms_valid_def)
    with Inl False show ?thesis by (simp add: run)
  next
    case (Inr y)
    obtain inp1 crc s1 where y: "y = (inp1, crc, s1)" by (cases y) auto
    from L Inr y have ok: "list_all (hms_byte_ok (data b)) [0..<6]"
      and inp1: "inp1 = cursor (data b) 60"
      and crc: "crc = foldl (XOR) 0 (hms_payload (data b))"
      and oby: "oby s1 = 6" and len: "length (obuf s1) = length (obuf s0)"
      and bytes: "\<forall>j<6. obuf s1 ! j = hms_byte (data b) j"
      by (simp_all add: hms_payload_def)
    have g1: "getbits (cursor (data b) 60) 8 0 = (hms_byte (data b) 6, cursor (data b) 68)"
      using getbits_cursor [of 8 60 "data b" 0] by (simp add: hms_byte_def)
    have g2: "getbit (cursor (data b) 68) =
                (if stream_bit (data b) 68 then 1 else 0, cursor (data b) 69)"
      using getbit_cursor [of 68 "data b"] by simp
    have res: "analyze_hms b s =
                 (if hms_parity_ok (data b) 6 \<and> hms_byte (data b) 6 = crc then 1 else 0, s1)"
      using Inr y by (auto simp: run inp1 g1 g2 hms_parity_ok_def)
    have pay: "take 6 (obuf s1) = hms_payload (data b)"
      using bytes len l by (intro nth_equalityI) (simp_all add: hms_payload_def)
    show ?thesis
      using False ok pay oby by (auto simp: res hms_valid_def crc)
  qed
qed

text \<open>
  C3, as stated: bytes highest bit first, a 1 after each parity bit.  The
  message that \<open>analyze_hms\<close> accepts is not of that form, and the message of
  that form is refused: the bit after the parity bit has to be 0.
\<close>

theorem analyze_hms_not_as_claimed:
  "fst (analyze_hms hms_bucket (init_state culfw_config)) = 1 \<and>
   \<not> hms_claimed_valid hms_bucket \<and>
   hms_claimed_valid hms_claimed_bucket \<and>
   fst (analyze_hms hms_claimed_bucket (init_state culfw_config)) = 0"
  by code_simp

theorem analyze_hms_lsb_first_witness:
  "6 \<le> length (obuf (init_state culfw_config)) \<and>
   hms_valid hms_bucket \<and>
   fst (analyze_hms hms_bucket (init_state culfw_config)) = 1 \<and>
   take 6 (obuf (snd (analyze_hms hms_bucket (init_state culfw_config)))) =
     [0x81, 0xD4, 0x12, 0x00, 0x34, 0x9F] \<and>
   oby (snd (analyze_hms hms_bucket (init_state culfw_config))) = 6"
proof -
  have h: "6 \<le> length (obuf (init_state culfw_config))" by code_simp
  have v: "hms_valid hms_bucket" by code_simp
  have p: "hms_payload (data hms_bucket) = [0x81, 0xD4, 0x12, 0x00, 0x34, 0x9F]" by code_simp
  from analyze_hms_lsb_first [OF h, of hms_bucket] h v p show ?thesis by simp
qed

subsection \<open>analyze\_esa\<close>

lemma ESA_DATALEN_le: "ESA_DATALEN cfg \<le> 17"
  by (simp add: ESA_DATALEN_def)

lemma esa_body:
  assumes k: "k < ESA_DATALEN cfg" and oby: "oby s = of_nat k"
  shows "analyze_esa_body (cursor d (8 * k), salt, crc, s) =
           (cursor d (8 * (k + 1)), esa_byte d k + 0x24, crc + ucast (esa_byte d k),
            s\<lparr>obuf := (obuf s)[k := esa_byte d k XOR salt]\<rparr>)"
proof -
  have k17: "k < 17" using k ESA_DATALEN_le [of cfg] by simp
  have uk: "unat (oby s) = k" using k17 by (simp add: oby unat_of_nat)
  have e: "8 * k + 8 = 8 * (k + 1)" by simp
  have "getbits (cursor d (8 * k)) 8 1 = (field_msb d (8 * k) 8, cursor d (8 * k + 8))"
    using k17 getbits_cursor [of 8 "8 * k" d 1] by simp
  then have g: "getbits (cursor d (8 * k)) 8 1 = (esa_byte d k, cursor d (8 * (k + 1)))"
    unfolding e esa_byte_def .
  show ?thesis
    unfolding analyze_esa_body_def by (simp only: g uk Let_def prod.case)
qed

lemma esa_loop:
  assumes "k \<le> ESA_DATALEN cfg" and "oby s = of_nat k"
  shows "\<exists>s'. analyze_esa_loop cfg (cursor d (8 * k), salt, crc, s) =
           (cursor d (8 * ESA_DATALEN cfg),
            fst (snd (esa_payload (map (esa_byte d) [k..<ESA_DATALEN cfg]) salt crc)),
            snd (snd (esa_payload (map (esa_byte d) [k..<ESA_DATALEN cfg]) salt crc)), s') \<and>
           scratch_only s s' \<and>
           oby s' = of_nat (ESA_DATALEN cfg) \<and> length (obuf s') = length (obuf s) \<and>
           (\<forall>j<length (obuf s). obuf s' ! j =
              (if k \<le> j \<and> j < ESA_DATALEN cfg
               then fst (esa_payload (map (esa_byte d) [k..<ESA_DATALEN cfg]) salt crc) ! (j - k)
               else obuf s ! j))"
  using assms
proof (induction "ESA_DATALEN cfg - k" arbitrary: k salt crc s)
  case 0
  then have k: "k = ESA_DATALEN cfg" by simp
  have "unat (oby s) = ESA_DATALEN cfg"
    using "0.prems"(2) ESA_DATALEN_le [of cfg] by (simp add: k unat_of_nat)
  then show ?case
    using "0.prems"(2) by (subst analyze_esa_loop.simps) (auto simp: k)
next
  case (Suc m)
  let ?N = "ESA_DATALEN cfg"
  from Suc have k: "k < ?N" and m: "m = ?N - (k + 1)" and k1: "k + 1 \<le> ?N" by simp_all
  have uk: "unat (oby s) = k"
    using k ESA_DATALEN_le [of cfg] Suc.prems(2) by (simp add: unat_of_nat)
  define s2 where "s2 = s\<lparr>obuf := (obuf s)[k := esa_byte d k XOR salt], oby := oby s + 1\<rparr>"
  have o2: "oby s2 = of_nat (k + 1)" by (simp add: s2_def Suc.prems(2))
  have step: "analyze_esa_loop cfg (cursor d (8 * k), salt, crc, s) =
              analyze_esa_loop cfg (cursor d (8 * (k + 1)), esa_byte d k + 0x24,
                                    crc + ucast (esa_byte d k), s2)"
    using k uk esa_body [OF k Suc.prems(2), of d salt crc]
    by (subst analyze_esa_loop.simps) (simp add: s2_def)
  from Suc.hyps(1) [OF m k1 o2, of "esa_byte d k + 0x24" "crc + ucast (esa_byte d k)"]
  obtain s' where
    r: "analyze_esa_loop cfg (cursor d (8 * (k + 1)), esa_byte d k + 0x24,
                              crc + ucast (esa_byte d k), s2) =
          (cursor d (8 * ?N),
           fst (snd (esa_payload (map (esa_byte d) [k + 1..<?N]) (esa_byte d k + 0x24)
                       (crc + ucast (esa_byte d k)))),
           snd (snd (esa_payload (map (esa_byte d) [k + 1..<?N]) (esa_byte d k + 0x24)
                       (crc + ucast (esa_byte d k)))), s')"
    and sc: "scratch_only s2 s'"
    and o: "oby s' = of_nat ?N" and l: "length (obuf s') = length (obuf s2)"
    and bytes: "\<forall>j<length (obuf s2). obuf s' ! j =
              (if k + 1 \<le> j \<and> j < ?N
               then fst (esa_payload (map (esa_byte d) [k + 1..<?N]) (esa_byte d k + 0x24)
                          (crc + ucast (esa_byte d k))) ! (j - (k + 1))
               else obuf s2 ! j)"
    by blast
  have upt: "[k..<?N] = k # [k + 1..<?N]" using k by (simp add: upt_conv_Cons)
  have sc': "scratch_only s s'"
  proof -
    have "scratch_only s s2" unfolding s2_def
      by (rule scratch_onlyI [where a = "oby s + 1" and b = "(obuf s)[k := esa_byte d k XOR salt]"
            and c = "nibble s"]) simp
    then show ?thesis using sc by (rule scratch_only_trans)
  qed
  have kj: "k \<le> j \<longleftrightarrow> j = k \<or> Suc k \<le> j" for j by auto
  show ?case
    apply (rule exI [of _ s'])
    unfolding step r upt
    using o l bytes sc' k
    by (auto simp: s2_def split_beta Let_def nth_list_update kj Suc_diff_Suc)
qed


text \<open>
  C6.  With room in \<open>obuf\<close> for the bytes it writes, \<open>analyze_esa\<close> succeeds
  exactly when the bucket is in state ESA, holds \<open>ESA_BITLEN\<close> bits, and the
  computation of the specification ends with \<open>crc\<close> equal to zero; whenever it
  gets as far as that computation, \<open>obuf\<close> holds the descrambled bytes.
\<close>

theorem analyze_esa_accepts_iff:
  assumes len: "ESA_DATALEN cfg < length (obuf s)"
  shows "fst (analyze_esa cfg b s) =
           (if state b = STATE_ESA \<and> bucket_bits b = ESA_BITLEN cfg \<and> esa_crc cfg (data b) = 0
            then 1 else 0) \<and>
         (state b = STATE_ESA \<and> bucket_bits b = ESA_BITLEN cfg \<longrightarrow>
            take (ESA_DATALEN cfg + 1) (obuf (snd (analyze_esa cfg b s))) = esa_output cfg (data b) \<and>
            unat (oby (snd (analyze_esa cfg b s))) = ESA_DATALEN cfg + 1)"
proof (cases "state b = STATE_ESA \<and> bucket_bits b = ESA_BITLEN cfg")
  case False
  then show ?thesis by (auto simp: analyze_esa_def Let_def)
next
  case True
  let ?N = "ESA_DATALEN cfg"
  let ?d = "data b"
  define P where "P = esa_payload (map (esa_byte ?d) [0..<?N]) 0x89 (ESA_CRC cfg)"
  have N17: "?N \<le> 17" by (rule ESA_DATALEN_le)
  define c0 where "c0 = cursor ?d (8 * ?N)"
  define c1 where "c1 = cursor ?d (8 * (?N + 1))"
  define c2 where "c2 = cursor ?d (8 * (?N + 2))"
  from esa_loop [of 0 cfg "s\<lparr>oby := 0\<rparr>" ?d "0x89" "ESA_CRC cfg"]
  obtain s1 where
    r: "analyze_esa_loop cfg (cursor ?d 0, 0x89, ESA_CRC cfg, s\<lparr>oby := 0\<rparr>) =
          (c0, fst (snd P), snd (snd P), s1)"
    and o: "oby s1 = of_nat ?N" and l: "length (obuf s1) = length (obuf s)"
    and bytes: "\<forall>j<length (obuf s). obuf s1 ! j = (if j < ?N then fst P ! j else obuf s ! j)"
    by (auto simp: P_def c0_def)
  have uN: "unat (oby s1) = ?N" using N17 by (simp add: o unat_of_nat)
  have uN1: "unat (oby s1 + 1) = ?N + 1"
    using N17 by (simp add: o unat_word_ariths unat_of_nat)
  have g1: "getbits c0 8 1 = (esa_byte ?d ?N, c1)"
    using N17 getbits_cursor [of 8 "8 * ?N" ?d 1]
    by (simp add: esa_byte_def ac_simps c0_def c1_def)
  have g2: "getbits c1 8 1 = (esa_byte ?d (?N + 1), c2)"
    using N17 getbits_cursor [of 8 "8 * (?N + 1)" ?d 1]
    by (simp add: esa_byte_def ac_simps c1_def c2_def)
  have g3: "\<exists>c3. getbits c2 8 1 = (esa_byte ?d (?N + 2), c3)"
    using N17 getbits_cursor [of 8 "8 * (?N + 2)" ?d 1]
    by (simp add: esa_byte_def ac_simps c2_def)
  then obtain c3 where g3: "getbits c2 8 1 = (esa_byte ?d (?N + 2), c3)" by blast
  define s4 where
    "s4 = s1\<lparr>obuf := (obuf s1)[?N := esa_byte ?d ?N XOR 0xff], oby := oby s1 + 1\<rparr>"
  have rd: "(obuf s1)[?N := v] ! ?N = v" for v using len l by simp
  define C where
    "C = snd (snd P) + ucast (esa_byte ?d ?N) - push_bit 8 (ucast (esa_byte ?d (?N + 1)))
           - ucast (esa_byte ?d (?N + 2))"
  have res: "analyze_esa cfg b s = (if C \<noteq> 0 then 0 else 1, s4)"
    using True
    by (simp add: analyze_esa_def Let_def cursor_0 r g1 g2 g3 uN rd s4_def C_def cong: if_cong)
  have crc: "C = esa_crc cfg ?d"
    by (simp add: C_def esa_crc_def Let_def split_beta P_def [symmetric] diff_diff_eq)
  have lenP: "length (fst (esa_payload bs salt crc)) = length bs" for bs salt crc
    by (induction bs arbitrary: salt crc) (simp_all add: split_beta Let_def)
  have lP: "length (fst P) = ?N" by (simp add: P_def lenP)
  have out: "take (?N + 1) (obuf s4) = esa_output cfg ?d"
  proof (intro nth_equalityI)
    show "length (take (?N + 1) (obuf s4)) = length (esa_output cfg ?d)"
      using len l by (simp add: s4_def esa_output_def Let_def split_beta P_def [symmetric] lP)
  next
    fix j assume "j < length (take (?N + 1) (obuf s4))"
    then have j: "j < ?N + 1" by simp
    show "take (?N + 1) (obuf s4) ! j = esa_output cfg ?d ! j"
    proof (cases "j < ?N")
      case True
      then show ?thesis
        using bytes len l j
        by (simp add: s4_def esa_output_def Let_def split_beta P_def [symmetric] lP nth_append)
    next
      case False
      then have "j = ?N" using j by simp
      then show ?thesis
        using len l
        by (simp add: s4_def esa_output_def Let_def split_beta P_def [symmetric] lP nth_append)
    qed
  qed
  show ?thesis
    using True out uN1 by (simp add: res crc s4_def)
qed

theorem analyze_esa_accepts_iff_witness:
  "ESA_DATALEN culfw_config < length (obuf (init_state culfw_config)) \<and>
   state esa_bucket = STATE_ESA \<and> bucket_bits esa_bucket = ESA_BITLEN culfw_config \<and>
   esa_crc culfw_config (data esa_bucket) = 0 \<and>
   fst (analyze_esa culfw_config esa_bucket (init_state culfw_config)) = 1 \<and>
   take 16 (obuf (snd (analyze_esa culfw_config esa_bucket (init_state culfw_config)))) =
     0x89 # replicate 14 0x24 @ [0xFF]"
proof -
  have h: "ESA_DATALEN culfw_config < length (obuf (init_state culfw_config))" by code_simp
  have a: "state esa_bucket = STATE_ESA" "bucket_bits esa_bucket = ESA_BITLEN culfw_config"
    "esa_crc culfw_config (data esa_bucket) = 0" by code_simp+
  have n: "ESA_DATALEN culfw_config + 1 = 16" by code_simp
  have o: "esa_output culfw_config (data esa_bucket) = 0x89 # replicate 14 0x24 @ [0xFF]"
    by code_simp
  from analyze_esa_accepts_iff [OF h, of esa_bucket] h a n o show ?thesis by simp
qed

subsection \<open>analyze\_TX3\<close>

lemma tx3_body:
  assumes k: "k < 4" and oby: "oby s = of_nat k"
  shows "\<exists>crc'. analyze_TX3_body (cursor d (tx3_pos k), crc, s) =
           (cursor d (tx3_pos (k + 1)), crc', s\<lparr>obuf := (obuf s)[k := tx3_byte d k]\<rparr>)"
proof -
  have uk: "unat (oby s) = k" using k by (simp add: oby unat_of_nat)
  have k0: "oby s = 0 \<longleftrightarrow> k = 0"
    using uk by (metis unat_eq_0)
  show ?thesis
  proof (cases "k = 0")
    case True
    have g: "getbits (cursor d 0) 7 1 = (field_msb d 0 7, cursor d 7)"
      using getbits_cursor [of 7 0 d 1] by simp
    show ?thesis
      using True k0 g uk
      by (simp add: analyze_TX3_body_def Let_def tx3_pos_def tx3_byte_def)
  next
    case False
    have e: "tx3_pos k + 8 = tx3_pos (k + 1)" using False by (simp add: tx3_pos_def)
    have b: "tx3_pos k + 8 \<le> 2048" using k by (auto simp: tx3_pos_def)
    have "getbits (cursor d (tx3_pos k)) 8 1 = (field_msb d (tx3_pos k) 8, cursor d (tx3_pos k + 8))"
      using getbits_cursor [OF _ b, of d 1] by simp
    then have g: "getbits (cursor d (tx3_pos k)) 8 1 =
                    (field_msb d (tx3_pos k) 8, cursor d (tx3_pos (k + 1)))"
      unfolding e .
    show ?thesis
      using False k0 k uk
      by (simp add: analyze_TX3_body_def Let_def g tx3_byte_def)
  qed
qed

lemma tx3_loop:
  assumes "k \<le> 4" and "oby s = of_nat k"
  shows "\<exists>crc' s'. analyze_TX3_loop (cursor d (tx3_pos k), crc, s) = (cursor d 31, crc', s') \<and>
           oby s' = 4 \<and> length (obuf s') = length (obuf s) \<and>
           (\<forall>j<length (obuf s). obuf s' ! j =
              (if k \<le> j \<and> j < 4 then tx3_byte d j else obuf s ! j))"
  using assms
proof (induction "4 - k" arbitrary: k crc s)
  case 0
  then have k: "k = 4" by simp
  show ?case
    using "0.prems"(2) by (subst analyze_TX3_loop.simps) (auto simp: k tx3_pos_def)
next
  case (Suc m)
  then have k: "k < 4" and m: "m = 4 - (k + 1)" and k1: "k + 1 \<le> 4" by simp_all
  have lt: "oby s < 4"
    using k Suc.prems(2) by (simp add: word_less_nat_alt unat_of_nat)
  from tx3_body [OF k Suc.prems(2), of d crc] obtain crc1 where
    body: "analyze_TX3_body (cursor d (tx3_pos k), crc, s) =
             (cursor d (tx3_pos (k + 1)), crc1, s\<lparr>obuf := (obuf s)[k := tx3_byte d k]\<rparr>)"
    by blast
  define s2 where "s2 = s\<lparr>obuf := (obuf s)[k := tx3_byte d k], oby := oby s + 1\<rparr>"
  have o2: "oby s2 = of_nat (k + 1)" by (simp add: s2_def Suc.prems(2))
  have step: "analyze_TX3_loop (cursor d (tx3_pos k), crc, s) =
              analyze_TX3_loop (cursor d (tx3_pos (k + 1)), crc1, s2)"
    using lt body by (subst analyze_TX3_loop.simps) (simp add: s2_def)
  from Suc.hyps(1) [OF m k1 o2, of crc1] obtain crc' s' where
    r: "analyze_TX3_loop (cursor d (tx3_pos (k + 1)), crc1, s2) = (cursor d 31, crc', s')"
    and o: "oby s' = 4" and l: "length (obuf s') = length (obuf s2)"
    and bytes: "\<forall>j<length (obuf s2). obuf s' ! j =
                  (if k + 1 \<le> j \<and> j < 4 then tx3_byte d j else obuf s2 ! j)"
    by blast
  have kj: "k \<le> j \<longleftrightarrow> j = k \<or> Suc k \<le> j" for j by auto
  show ?case
    apply (rule exI [of _ crc'])
    apply (rule exI [of _ s'])
    unfolding step r
    using o l bytes k
    by (auto simp: s2_def nth_list_update kj)
qed

lemma drop_bit_4_and_0xF: "drop_bit 4 (x AND 0xF :: u8) = 0"
  by (rule bit_eqI) (auto simp: bit_simps bit_numeral_iff dest: bit_imp_le_length)


lemma analyze_TX3_accepts_iff:
  assumes len: "5 \<le> length (obuf s)"
  shows "fst (analyze_TX3 b s) =
           (if byteidx b = 4 \<and> bitidx b = 1 \<and> drop_bit 4 (tx3_byte (data b) 0) = 0xA
            then 1 else 0) \<and>
         (byteidx b = 4 \<and> bitidx b = 1 \<longrightarrow>
            take 5 (obuf (snd (analyze_TX3 b s))) = tx3_output (data b) \<and>
            oby (snd (analyze_TX3 b s)) = 5)"
proof (cases "byteidx b = 4 \<and> bitidx b = 1")
  case False
  then show ?thesis by (auto simp: analyze_TX3_def Let_def)
next
  case True
  let ?d = "data b"
  define c4 where "c4 = cursor ?d 31"
  from tx3_loop [of 0 "s\<lparr>oby := 0\<rparr>" ?d 0]
  obtain crc s1 where
    r: "analyze_TX3_loop (cursor ?d 0, 0, s\<lparr>oby := 0\<rparr>) = (c4, crc, s1)"
    and o: "oby s1 = 4" and l: "length (obuf s1) = length (obuf s)"
    and bytes: "\<forall>j<length (obuf s). obuf s1 ! j = (if j < 4 then tx3_byte ?d j else obuf s ! j)"
    by (auto simp: tx3_pos_def c4_def)
  have g: "\<exists>c5. getbits c4 7 1 = (field_msb ?d 31 7, c5)"
    using getbits_cursor [of 7 31 ?d 1] by (simp add: c4_def)
  then obtain c5 where g: "getbits c4 7 1 = (field_msb ?d 31 7, c5)" by blast
  define s3 where "s3 = s1\<lparr>obuf := (obuf s1)[4 := tx3_byte ?d 4], oby := 5\<rparr>"
  have b4: "tx3_byte ?d 4 = push_bit 1 (field_msb ?d 31 7)"
    by (simp add: tx3_byte_def tx3_pos_def)
  have u4: "unat (oby s1) = 4" by (simp add: o)
  have "obuf s1 ! 0 = tx3_byte ?d 0"
    using bytes [THEN spec, of 0] len by auto
  then have z: "obuf s3 ! 0 = tx3_byte ?d 0"
    by (simp add: s3_def)
  have res: "analyze_TX3 b s = (if drop_bit 4 (obuf s3 ! 0) \<noteq> 0xA then 0 else 1, s3)"
    using True
    by (simp add: analyze_TX3_def Let_def cursor_0 r g u4 o b4 s3_def drop_bit_4_and_0xF
             cong: if_cong)
  have out: "take 5 (obuf s3) = tx3_output ?d"
  proof (intro nth_equalityI)
    show "length (take 5 (obuf s3)) = length (tx3_output ?d)"
      using len l by (simp add: s3_def tx3_output_def)
  next
    fix j assume "j < length (take 5 (obuf s3))"
    then have j: "j < 5" by simp
    then have "j < 4 \<or> j = 4" by auto
    then show "take 5 (obuf s3) ! j = tx3_output ?d ! j"
      using bytes len l j by (auto simp: s3_def tx3_output_def nth_list_update)
  qed
  show ?thesis
    using True out by (simp add: res z) (simp add: s3_def)
qed

text \<open>
  C7.  The decoder adds up the nibbles of the bytes in \<open>crc\<close>, but cuts \<open>crc\<close> to
  its low nibble before it tests \<open>(crc >> 4) != 0\<close>, so that test never fails
  (\<open>drop_bit_4_and_0xF\<close>): \<open>analyze_TX3\<close> succeeds exactly when \<open>byteidx\<close> is 4,
  \<open>bitidx\<close> is 1 and the high nibble of the first byte is \<open>0xA\<close>
  (\<open>analyze_TX3_accepts_iff\<close>), whatever the other nibbles are.  The bucket here
  gives the bytes \<open>A0 00 00 00 00\<close>, whose nibbles do not add up to the last
  one, and is accepted.
\<close>

theorem analyze_TX3_accepts_any_nibbles:
  "fst (analyze_TX3 tx3_bucket (init_state culfw_config)) = 1 \<and>
   take 5 (obuf (snd (analyze_TX3 tx3_bucket (init_state culfw_config)))) =
     [0xA0, 0x00, 0x00, 0x00, 0x00] \<and>
   oby (snd (analyze_TX3 tx3_bucket (init_state culfw_config))) = 5"
  by code_simp

theorem analyze_TX3_accepts_any_nibbles_witness:
  "byteidx tx3_bucket = 4 \<and> bitidx tx3_bucket = 1 \<and>
   fst (analyze_TX3 tx3_bucket (init_state culfw_config)) = 1"
proof -
  have "byteidx tx3_bucket = 4" "bitidx tx3_bucket = 1" by code_simp+
  with analyze_TX3_accepts_any_nibbles show ?thesis by simp
qed

subsection \<open>The repeat filter\<close>

lemma u8_succ: "(a::u8) < b \<Longrightarrow> unat (a + 1) = Suc (unat a)"
  by unat_arith

lemma compare_loop_frame:
  "\<exists>a c. compare_loop s = s\<lparr>roby := a, isnotrep := c\<rparr>"
proof (induction s rule: compare_loop.induct)
  case (1 s)
  show ?case
  proof (cases "roby s < oby s")
    case False
    then have "compare_loop s = s\<lparr>roby := roby s, isnotrep := isnotrep s\<rparr>"
      by (subst compare_loop.simps) simp
    then show ?thesis by blast
  next
    case lt: True
    show ?thesis
    proof (cases "robuf s ! unat (roby s) = obuf s ! unat (roby s)")
      case False
      with lt have "compare_loop s = s\<lparr>roby := roby s, isnotrep := False\<rparr>"
        by (subst compare_loop.simps) simp
      then show ?thesis by blast
    next
      case True
      with 1 lt obtain a c where
        "compare_loop (s\<lparr>roby := roby s + 1\<rparr>) = s\<lparr>roby := roby s + 1\<rparr>\<lparr>roby := a, isnotrep := c\<rparr>"
        by blast
      with True lt have "compare_loop s = s\<lparr>roby := a, isnotrep := c\<rparr>"
        by (subst compare_loop.simps) simp
      then show ?thesis by blast
    qed
  qed
qed

lemma compare_loop_roby:
  assumes "roby s \<le> oby s"
  shows "roby (compare_loop s) = oby s \<longleftrightarrow>
         (\<forall>i. unat (roby s) \<le> i \<and> i < unat (oby s) \<longrightarrow> robuf s ! i = obuf s ! i)"
  using assms
proof (induction s rule: compare_loop.induct)
  case (1 s)
  show ?case
  proof (cases "roby s < oby s")
    case False
    with "1.prems" have e: "roby s = oby s" by simp
    show ?thesis by (subst compare_loop.simps) (auto simp: e)
  next
    case lt: True
    show ?thesis
    proof (cases "robuf s ! unat (roby s) = obuf s ! unat (roby s)")
      case False
      have "unat (roby s) < unat (oby s)" using lt by (simp add: word_less_nat_alt)
      with False lt show ?thesis
        by (subst compare_loop.simps) auto
    next
      case True
      have le: "roby (s\<lparr>roby := roby s + 1\<rparr>) \<le> oby (s\<lparr>roby := roby s + 1\<rparr>)"
        using lt by simp unat_arith
      have kj: "unat (roby s) \<le> i \<longleftrightarrow> i = unat (roby s) \<or> Suc (unat (roby s)) \<le> i" for i
        by auto
      show ?thesis
        using True lt "1.IH" [OF lt _ le] u8_succ [OF lt]
        by (subst compare_loop.simps) (auto simp: kj)
    qed
  qed
qed


lemma save_loop_frame:
  "\<exists>r a. save_loop s = s\<lparr>robuf := r, roby := a\<rparr>"
proof (induction s rule: save_loop.induct)
  case (1 s)
  show ?case
  proof (cases "roby s < oby s")
    case False
    then have "save_loop s = s\<lparr>robuf := robuf s, roby := roby s\<rparr>"
      by (subst save_loop.simps) simp
    then show ?thesis by blast
  next
    case True
    define s1 where
      "s1 = s\<lparr>robuf := (robuf s)[unat (roby s) := obuf s ! unat (roby s)], roby := roby s + 1\<rparr>"
    from 1 True obtain r a where "save_loop s1 = s1\<lparr>robuf := r, roby := a\<rparr>"
      unfolding s1_def by blast
    with True have "save_loop s = s\<lparr>robuf := r, roby := a\<rparr>"
      by (subst save_loop.simps) (simp add: s1_def)
    then show ?thesis by blast
  qed
qed

lemma save_loop_result:
  assumes "roby s \<le> oby s"
  shows "roby (save_loop s) = oby s \<and> length (robuf (save_loop s)) = length (robuf s) \<and>
         (\<forall>i<length (robuf s). robuf (save_loop s) ! i =
            (if unat (roby s) \<le> i \<and> i < unat (oby s) then obuf s ! i else robuf s ! i))"
  using assms
proof (induction s rule: save_loop.induct)
  case (1 s)
  show ?case
  proof (cases "roby s < oby s")
    case False
    with "1.prems" have e: "roby s = oby s" by simp
    have "save_loop s = s" by (subst save_loop.simps) (simp add: e)
    then show ?thesis by (auto simp: e)
  next
    case lt: True
    define s1 where
      "s1 = s\<lparr>robuf := (robuf s)[unat (roby s) := obuf s ! unat (roby s)], roby := roby s + 1\<rparr>"
    have le: "roby s1 \<le> oby s1" using lt unfolding s1_def by simp unat_arith
    have step: "save_loop s = save_loop s1"
      using lt by (subst save_loop.simps) (simp add: s1_def)
    have kj: "unat (roby s) \<le> i \<longleftrightarrow> i = unat (roby s) \<or> Suc (unat (roby s)) \<le> i" for i
      by auto
    have lt': "unat (roby s) < unat (oby s)" using lt by (simp add: word_less_nat_alt)
    from "1.IH" [OF lt le [unfolded s1_def]] u8_succ [OF lt] lt'
    show ?thesis
      unfolding step by (auto simp: s1_def nth_list_update kj)
  qed
qed

text \<open>
  C5.  With a decoded message (\<open>datatype\<close> not 0), \<open>REP_KNOWN\<close> set and
  \<open>REP_REPEATED\<close> clear, \<open>report\<close> runs the repeat filter of lines 595 to 616.
  After it \<open>isrep\<close> is set exactly when \<open>roby\<close> equals \<open>oby\<close>, the first \<open>oby\<close>
  bytes of \<open>robuf\<close> and \<open>obuf\<close> are equal and \<open>ticks - reptime < REPTIME\<close>; and in
  every case \<open>robuf\<close> holds the new payload, \<open>roby\<close> its length and \<open>reptime\<close>
  the current tick count.
\<close>

theorem repeat_check_flags_identical_payload:
  assumes "dt \<noteq> 0" and "tx_report s AND REP_KNOWN cfg \<noteq> 0"
      and rr: "tx_report s AND REP_REPEATED cfg = 0"
      and lr: "unat (oby s) \<le> length (robuf s)" and lo: "unat (oby s) \<le> length (obuf s)"
  shows "let s' = repeat_check cfg (ticks inp) s in
           report cfg inp dt s =
             emit_message cfg (rssi_msg inp) dt
               (checkForRepeatedPackage cfg dt (fht_protocol_check cfg dt s')) \<and>
           isrep s' =
             (roby s = oby s \<and> (\<forall>i<unat (oby s). robuf s ! i = obuf s ! i) \<and>
              ticks inp - reptime s < REPTIME cfg) \<and>
           take (unat (oby s)) (robuf s') = take (unat (oby s)) (obuf s) \<and>
           roby s' = oby s \<and> reptime s' = ticks inp \<and> oby s' = oby s \<and> obuf s' = obuf s"
proof -
  define now where "now = ticks inp"
  define s1 where "s1 = s\<lparr>isrep := False, packageOK := False\<rparr>"
  define sc where "sc = compare_loop (s1\<lparr>roby := 0\<rparr>)"
  define s2 where "s2 = (if roby s1 = oby s1
                         then (if roby sc = oby sc \<and> now - reptime sc < REPTIME cfg
                               then sc\<lparr>isrep := True\<rparr> else sc)
                         else s1)"
  define s3 where "s3 = save_loop (s2\<lparr>roby := 0\<rparr>)"
  have rc: "repeat_check cfg now s = s3\<lparr>reptime := now\<rparr>"
    using rr by (simp add: repeat_check_def Let_def s1_def sc_def s2_def s3_def)
  obtain a c where sc_eq: "sc = s1\<lparr>roby := 0\<rparr>\<lparr>roby := a, isnotrep := c\<rparr>"
    using compare_loop_frame [of "s1\<lparr>roby := 0\<rparr>"] unfolding sc_def by blast
  have sc_f: "oby sc = oby s" "obuf sc = obuf s" "robuf sc = robuf s" "reptime sc = reptime s"
    "isrep sc = False"
    by (simp_all add: sc_eq s1_def)
  have sc_r: "roby sc = oby s \<longleftrightarrow> (\<forall>i<unat (oby s). robuf s ! i = obuf s ! i)"
    unfolding sc_def using compare_loop_roby [of "s1\<lparr>roby := 0\<rparr>"]
    by (simp add: s1_def)
  have s2_f: "oby s2 = oby s" "obuf s2 = obuf s" "robuf s2 = robuf s"
    by (simp_all add: s2_def sc_f s1_def)
  have s2_r: "isrep s2 = (roby s = oby s \<and> (\<forall>i<unat (oby s). robuf s ! i = obuf s ! i) \<and>
                now - reptime s < REPTIME cfg)"
    using sc_r by (auto simp: s2_def sc_f s1_def)
  obtain r a' where s3_eq: "s3 = s2\<lparr>roby := 0\<rparr>\<lparr>robuf := r, roby := a'\<rparr>"
    using save_loop_frame [of "s2\<lparr>roby := 0\<rparr>"] unfolding s3_def by blast
  have s3_f: "oby s3 = oby s" "obuf s3 = obuf s" "isrep s3 = isrep s2"
    by (simp_all add: s3_eq s2_f)
  have s3_r: "roby s3 = oby s" "length (robuf s3) = length (robuf s)"
    "\<forall>i<length (robuf s). robuf s3 ! i = (if i < unat (oby s) then obuf s ! i else robuf s ! i)"
    unfolding s3_def using save_loop_result [of "s2\<lparr>roby := 0\<rparr>"]
    by (simp_all add: s2_f)
  have tk: "take (unat (oby s)) (robuf s3) = take (unat (oby s)) (obuf s)"
    using s3_r lr lo by (intro nth_equalityI) simp_all
  have rep: "report cfg inp dt s =
             emit_message cfg (rssi_msg inp) dt
               (checkForRepeatedPackage cfg dt (fht_protocol_check cfg dt (repeat_check cfg now s)))"
    using assms(1,2) by (simp add: report_def now_def)
  show ?thesis
    unfolding Let_def now_def [symmetric]
    using rep tk s3_r(1) s3_f s2_r by (simp add: rc)
qed

theorem repeat_check_flags_identical_payload_witness:
  "tx_report rep_state AND REP_KNOWN culfw_config \<noteq> 0 \<and>
   tx_report rep_state AND REP_REPEATED culfw_config = 0 \<and>
   unat (oby rep_state) \<le> length (robuf rep_state) \<and>
   unat (oby rep_state) \<le> length (obuf rep_state) \<and>
   roby rep_state = oby rep_state \<and>
   ticks rep_in - reptime rep_state < REPTIME culfw_config \<and>
   isrep (repeat_check culfw_config (ticks rep_in) rep_state) \<and>
   take 3 (robuf (repeat_check culfw_config (ticks rep_in) rep_state)) = [0xA3, 0x5C, 0x0F] \<and>
   reptime (repeat_check culfw_config (ticks rep_in) rep_state) = 110"
proof -
  have d: "TYPE_IT culfw_config \<noteq> 0" by code_simp
  have h: "tx_report rep_state AND REP_KNOWN culfw_config \<noteq> 0"
    "tx_report rep_state AND REP_REPEATED culfw_config = 0"
    "unat (oby rep_state) \<le> length (robuf rep_state)"
    "unat (oby rep_state) \<le> length (obuf rep_state)"
    by code_simp+
  have e: "roby rep_state = oby rep_state" "ticks rep_in - reptime rep_state < REPTIME culfw_config"
    "list_all (\<lambda>i. robuf rep_state ! i = obuf rep_state ! i) [0..<unat (oby rep_state)]"
    "unat (oby rep_state) = 3" "take 3 (obuf rep_state) = [0xA3, 0x5C, 0x0F]" "ticks rep_in = 110"
    by code_simp+
  from repeat_check_flags_identical_payload [OF d h, of rep_in] h e show ?thesis
    by (simp add: Let_def list_all_iff)
qed

lemma step_ks300_failed_bucket:
  assumes "i < length (bucket_array s)"
      and "unat (byteidx (bucket_at s i)) < length (data (bucket_at s i))"
      and "bitidx (bucket_at s i) \<le> 7"
      and "fst (step_ks300 cfg i (0, s)) = 0"
  shows "bucket_at (snd (step_ks300 cfg i (0, s))) i =
           (bucket_at
              (addbit s i (wave_equals (one (bucket_at s i)) (ucast (pulse_high s))
                             (lowtime (one (bucket_at s i))) (state (bucket_at s i)))) i)
             \<lparr>byteidx := byteidx (bucket_at s i), bitidx := bitidx (bucket_at s i)\<rparr>"
proof -
  define w where "w = wave_equals (one (bucket_at s i)) (ucast (pulse_high s))
                        (lowtime (one (bucket_at s i))) (state (bucket_at s i))"
  define b1 where "b1 = bucket_at (addbit s i w) i"
  from step_ks300_failed [OF assms(4)] obtain s3
    where s3: "snd (step_ks300 cfg i (0, s)) = delbit s3 i"
      and ba: "bucket_array s3 = bucket_array (addbit s i w)"
    unfolding w_def by blast
  have len: "i < length (bucket_array s3)"
    using ba assms(1) addbit_not_full(6) [OF assms(1,2)] by simp
  have eq: "bucket_at s3 i = b1"
    using ba by (simp add: bucket_at_def b1_def)
  note c = addbit_not_full(1,2) [OF assms(1,2), of w, folded b1_def]
  have "bucket_at (delbit s3 i) i =
          b1\<lparr>byteidx := byteidx (bucket_at s i), bitidx := bitidx (bucket_at s i)\<rparr>"
  proof (cases "bitidx (bucket_at s i) = 0")
    case True
    then show ?thesis
      using len c by (simp add: delbit_def Let_def eq)
  next
    case False
    with assms(3) have "bitidx (bucket_at s i) - 1 \<noteq> 7" by (rule u8_pred_not_7)
    then show ?thesis
      using len c False by (simp add: delbit_def Let_def eq)
  qed
  then show ?thesis by (simp add: s3 b1_def w_def)
qed



subsection \<open>The other decoders write only their output\<close>

lemma scratch_only_obuf_oby:
  "scratch_only s (s\<lparr>obuf := b, oby := a\<rparr>)"
  by (rule scratch_onlyI [where a = a and b = b and c = "nibble s"]) simp

lemma copy_loop_scratch: "scratch_only s (copy_loop d lim s)"
proof (induction d lim s rule: copy_loop.induct)
  case (1 d lim s)
  show ?case
  proof (cases "oby s < lim")
    case False
    then show ?thesis by (subst copy_loop.simps) simp
  next
    case True
    have "scratch_only s (s\<lparr>obuf := (obuf s)[unat (oby s) := d ! unat (oby s)], oby := oby s + 1\<rparr>)"
      by (rule scratch_only_obuf_oby)
    from scratch_only_trans [OF this "1.IH" [OF True]] True
    show ?thesis by (subst copy_loop.simps) simp
  qed
qed

lemma analyze_revolt_loop_scratch: "scratch_only s (snd (analyze_revolt_loop d v s))"
proof (induction d v s rule: analyze_revolt_loop.induct)
  case (1 d v s)
  show ?case
  proof (cases "oby s < 11")
    case False
    then show ?thesis by (subst analyze_revolt_loop.simps) simp
  next
    case True
    have "scratch_only s (s\<lparr>obuf := (obuf s)[unat (oby s) := d ! unat (oby s)], oby := oby s + 1\<rparr>)"
      by (rule scratch_only_obuf_oby)
    from scratch_only_trans [OF this "1.IH" [OF True]] True
    show ?thesis by (subst analyze_revolt_loop.simps) simp
  qed
qed

lemma analyze_it_scratch: "scratch_only s (snd (analyze_it b s))"
proof -
  have a: "scratch_only s (s\<lparr>oby := 0\<rparr>)" by simp
  have b: "scratch_only (s\<lparr>oby := 0\<rparr>) (copy_loop (data b) (byteidx b) (s\<lparr>oby := 0\<rparr>))"
    by (rule copy_loop_scratch)
  from scratch_only_trans [OF a b] show ?thesis by (auto simp: analyze_it_def)
qed

lemma analyze_tcm97001_scratch: "scratch_only s (snd (analyze_tcm97001 b s))"
proof -
  have a: "scratch_only s (s\<lparr>oby := 0\<rparr>)" by simp
  have b: "scratch_only (s\<lparr>oby := 0\<rparr>) (copy_loop (data b) (byteidx b) (s\<lparr>oby := 0\<rparr>))"
    by (rule copy_loop_scratch)
  from scratch_only_trans [OF a b] show ?thesis by (auto simp: analyze_tcm97001_def)
qed

lemma analyze_revolt_scratch: "scratch_only s (snd (analyze_revolt b s))"
proof -
  have a: "scratch_only s (s\<lparr>oby := 0\<rparr>)" by simp
  have b: "scratch_only (s\<lparr>oby := 0\<rparr>) (snd (analyze_revolt_loop (data b) 0 (s\<lparr>oby := 0\<rparr>)))"
    by (rule analyze_revolt_loop_scratch)
  from scratch_only_trans [OF a b] show ?thesis by (auto simp: analyze_revolt_def split_beta)
qed

lemma analyze_hms_body_scratch:
  "analyze_hms_body (inp, crc, s) = Inl s' \<Longrightarrow> scratch_only s s'"
  "analyze_hms_body (inp, crc, s) = Inr (inp', crc', s') \<Longrightarrow> scratch_only s s'"
  by (auto simp: analyze_hms_body_def Let_def split_beta split: if_splits)

lemma analyze_hms_loop_scratch:
  "scratch_only (snd (snd x))
     (case analyze_hms_loop x of Inl s' \<Rightarrow> s' | Inr (inp, crc, s') \<Rightarrow> s')"
proof (induction x rule: analyze_hms_loop.induct)
  case (1 x)
  obtain inp crc s where x: "x = (inp, crc, s)" by (cases x) auto
  show ?case
  proof (cases "oby s < 6")
    case False
    then show ?thesis by (subst analyze_hms_loop.simps) (simp add: x)
  next
    case True
    show ?thesis
    proof (cases "analyze_hms_body x")
      case (Inl s1)
      with True analyze_hms_body_scratch(1) [of inp crc s s1] show ?thesis
        by (subst analyze_hms_loop.simps) (simp add: x)
    next
      case (Inr y)
      obtain inp1 crc1 s1 where y: "y = (inp1, crc1, s1)" by (cases y) auto
      have a: "scratch_only s s1"
        using Inr analyze_hms_body_scratch(2) [of inp crc s inp1 crc1 s1] by (simp add: x y)
      have b: "scratch_only s1 (s1\<lparr>oby := oby s1 + 1\<rparr>)" by simp
      have c: "scratch_only (s1\<lparr>oby := oby s1 + 1\<rparr>)
                 (case analyze_hms_loop (inp1, crc1, s1\<lparr>oby := oby s1 + 1\<rparr>) of
                    Inl s' \<Rightarrow> s' | Inr (inp, crc, s') \<Rightarrow> s')"
      proof -
        have t: "oby (snd (snd x)) < 6" using True by (simp add: x)
        have i: "analyze_hms_body x = Inr (inp1, crc1, s1)" using Inr by (simp add: y)
        show ?thesis using "1.IH" [OF t i refl refl] by simp
      qed
      from scratch_only_trans [OF a scratch_only_trans [OF b c]] True Inr
      show ?thesis by (subst analyze_hms_loop.simps) (simp add: x y)
    qed
  qed
qed

lemma analyze_hms_scratch: "scratch_only s (snd (analyze_hms b s))"
proof -
  let ?x = "(\<lparr>in_data = data b, in_byte = 0, in_bit = 7\<rparr>, 0 :: u8, s\<lparr>oby := 0\<rparr>)"
  have "scratch_only s (s\<lparr>oby := 0\<rparr>)" by simp
  from scratch_only_trans [OF this analyze_hms_loop_scratch [of ?x, simplified]]
  show ?thesis
    by (auto simp: analyze_hms_def Let_def split_beta split: sum.splits)
qed

lemma analyze_esa_loop_scratch:
  "scratch_only (snd (snd (snd x))) (snd (snd (snd (analyze_esa_loop cfg x))))"
proof (induction cfg x rule: analyze_esa_loop.induct)
  case (1 cfg x)
  obtain inp salt crc s where x: "x = (inp, salt, crc, s)" by (cases x) auto
  show ?case
  proof (cases "unat (oby s) < ESA_DATALEN cfg")
    case False
    then show ?thesis by (subst analyze_esa_loop.simps) (simp add: x)
  next
    case True
    obtain inp1 salt1 crc1 s1 where y: "analyze_esa_body x = (inp1, salt1, crc1, s1)"
      by (cases "analyze_esa_body x") auto
    have a: "scratch_only s s1"
      using y by (auto simp: x analyze_esa_body_def Let_def split_beta)
    have b: "scratch_only s1 (s1\<lparr>oby := oby s1 + 1\<rparr>)" by simp
    have c: "scratch_only (s1\<lparr>oby := oby s1 + 1\<rparr>)
               (snd (snd (snd (analyze_esa_loop cfg (inp1, salt1, crc1, s1\<lparr>oby := oby s1 + 1\<rparr>)))))"
    proof -
      have t: "unat (oby (snd (snd (snd x)))) < ESA_DATALEN cfg" using True by (simp add: x)
      show ?thesis using "1.IH" [OF t y [symmetric] refl refl] by simp
    qed
    from scratch_only_trans [OF a scratch_only_trans [OF b c]] True y
    show ?thesis by (subst analyze_esa_loop.simps) (simp add: x)
  qed
qed

lemma analyze_esa_scratch: "scratch_only s (snd (analyze_esa cfg b s))"
proof -
  let ?x = "(\<lparr>in_data = data b, in_byte = 0, in_bit = 7\<rparr>, 0x89 :: u8, ESA_CRC cfg, s\<lparr>oby := 0\<rparr>)"
  have "scratch_only s (s\<lparr>oby := 0\<rparr>)" by simp
  from scratch_only_trans [OF this analyze_esa_loop_scratch [of ?x cfg, simplified]]
  show ?thesis
    by (auto simp: analyze_esa_def Let_def split_beta intro!: scratch_only_after)
qed

lemma analyze_TX3_loop_scratch:
  "scratch_only (snd (snd x)) (snd (snd (analyze_TX3_loop x)))"
proof (induction x rule: analyze_TX3_loop.induct)
  case (1 x)
  obtain inp crc s where x: "x = (inp, crc, s)" by (cases x) auto
  show ?case
  proof (cases "oby s < 4")
    case False
    then show ?thesis by (subst analyze_TX3_loop.simps) (simp add: x)
  next
    case True
    obtain inp1 crc1 s1 where y: "analyze_TX3_body x = (inp1, crc1, s1)"
      by (cases "analyze_TX3_body x") auto
    have a: "scratch_only s s1"
      using y by (auto simp: x analyze_TX3_body_def Let_def split_beta split: if_splits)
    have b: "scratch_only s1 (s1\<lparr>oby := oby s1 + 1\<rparr>)" by simp
    have c: "scratch_only (s1\<lparr>oby := oby s1 + 1\<rparr>)
               (snd (snd (analyze_TX3_loop (inp1, crc1, s1\<lparr>oby := oby s1 + 1\<rparr>))))"
    proof -
      have t: "oby (snd (snd x)) < 4" using True by (simp add: x)
      show ?thesis using "1.IH" [OF t y [symmetric] refl] by simp
    qed
    from scratch_only_trans [OF a scratch_only_trans [OF b c]] True y
    show ?thesis by (subst analyze_TX3_loop.simps) (simp add: x)
  qed
qed

lemma analyze_TX3_scratch: "scratch_only s (snd (analyze_TX3 b s))"
proof -
  let ?x = "(\<lparr>in_data = data b, in_byte = 0, in_bit = 7\<rparr>, 0 :: u8, s\<lparr>oby := 0\<rparr>)"
  have "scratch_only s (s\<lparr>oby := 0\<rparr>)" by simp
  from scratch_only_trans [OF this analyze_TX3_loop_scratch [of ?x, simplified]]
  show ?thesis
    by (auto simp: analyze_TX3_def Let_def split_beta intro!: scratch_only_after)
qed


subsection \<open>The order of the decoders\<close>








subsection \<open>The compare interrupt\<close>

text \<open>
  C2, as claimed, does not hold: a bucket in state HMS with 2 bytes is not
  published but reset when three of the four buckets wait for the task.
\<close>

theorem silence_discards_when_ring_full:
  "state (bucket_at (silence_state STATE_HMS 2 3 1) (unat (bucket_in (silence_state STATE_HMS 2 3 1))))
     = STATE_HMS \<and>
   byteidx (bucket_at (silence_state STATE_HMS 2 3 1) (unat (bucket_in (silence_state STATE_HMS 2 3 1))))
     = 2 \<and>
   \<not> published culfw_config (silence_state STATE_HMS 2 3 1)
        (TIMER1_COMPA_vect culfw_config (silence_state STATE_HMS 2 3 1)) \<and>
   discarded (silence_state STATE_HMS 2 3 1)
        (TIMER1_COMPA_vect culfw_config (silence_state STATE_HMS 2 3 1)) \<and>
   bucket_nrused (TIMER1_COMPA_vect culfw_config (silence_state STATE_HMS 2 3 1)) = 3 \<and>
   bucket_in (TIMER1_COMPA_vect culfw_config (silence_state STATE_HMS 2 3 1)) = 0 \<and>
   state (bucket_at (TIMER1_COMPA_vect culfw_config (silence_state STATE_HMS 2 3 1)) 0) = STATE_RESET"
  by code_simp

text \<open>
  C2, amended.  The compare interrupt publishes the bucket at \<open>bucket_in\<close>
  exactly when its state is \<open>STATE_COLLECT\<close> or a later one, it holds at least 2
  bytes, and \<open>bucket_nrused + 1\<close> is not \<open>RCV_BUCKETS\<close>.  In every other case the
  bucket is discarded: the count and \<open>bucket_in\<close> stay and the bucket goes back to
  \<open>STATE_RESET\<close>.  So a bucket of fewer than 2 bytes is discarded, and when no
  other bucket waits the next run of the task is its monitor output and nothing
  more: no decoder runs and no message is written.
\<close>

theorem silence_publishes_iff_room:
  "(published cfg s (TIMER1_COMPA_vect cfg s) \<longleftrightarrow>
      STATE_COLLECT \<le> state (bucket_at s (unat (bucket_in s))) \<and>
      2 \<le> byteidx (bucket_at s (unat (bucket_in s))) \<and>
      uint (bucket_nrused s) + 1 \<noteq> int (RCV_BUCKETS cfg)) \<and>
   (\<not> published cfg s (TIMER1_COMPA_vect cfg s) \<longrightarrow> discarded s (TIMER1_COMPA_vect cfg s)) \<and>
   (byteidx (bucket_at s (unat (bucket_in s))) < 2 \<longrightarrow>
      discarded s (TIMER1_COMPA_vect cfg s) \<and>
      (bucket_nrused s = 0 \<longrightarrow>
         RfAnalyze_Task cfg inp (TIMER1_COMPA_vect cfg s) = monitor cfg inp (TIMER1_COMPA_vect cfg s)))"
proof -
  let ?b = "bucket_at s (unat (bucket_in s))"
  let ?s' = "TIMER1_COMPA_vect cfg s"
  let ?ok = "STATE_COLLECT \<le> state ?b \<and> 2 \<le> byteidx ?b \<and>
             uint (bucket_nrused s) + 1 \<noteq> int (RCV_BUCKETS cfg)"
  have p: "published cfg s ?s'" if "?ok"
  proof -
    from that have "\<not> (state ?b < STATE_COLLECT \<or> byteidx ?b < 2)"
      and "uint (bucket_nrused s) + 1 \<noteq> int (RCV_BUCKETS cfg)"
      by (simp_all add: not_less)
    then show ?thesis
      by (simp add: TIMER1_COMPA_vect_def Let_def published_def bucket_at_def)
  qed
  have d: "discarded s ?s'" if "\<not> ?ok"
  proof -
    from that have "state ?b < STATE_COLLECT \<or> byteidx ?b < 2 \<or>
                    uint (bucket_nrused s) + 1 = int (RCV_BUCKETS cfg)"
      by (auto simp: not_le)
    then show ?thesis
      by (auto simp: TIMER1_COMPA_vect_def Let_def discarded_def bucket_at_def reset_input_def
            put_bucket_def)
  qed
  have n: "\<not> published cfg s ?s'" if "discarded s ?s'"
    using that by (simp add: published_def discarded_def)
  have m: "bucket_nrused (monitor cfg inp t) = bucket_nrused t" for t
    by (simp add: monitor_def Let_def)
  have t: "RfAnalyze_Task cfg inp ?s' = monitor cfg inp ?s'"
    if "discarded s ?s'" "bucket_nrused s = 0"
    using that by (simp add: RfAnalyze_Task_def Let_def m discarded_def)
  have l: "\<not> ?ok" if "byteidx ?b < 2"
    using that by (simp add: not_le)
  show ?thesis
    using p d n t l by blast
qed

theorem silence_publishes_iff_room_witness:
  "published culfw_config (silence_state STATE_COLLECT 2 0 0)
     (TIMER1_COMPA_vect culfw_config (silence_state STATE_COLLECT 2 0 0)) \<and>
   bucket_nrused (TIMER1_COMPA_vect culfw_config (silence_state STATE_COLLECT 2 0 0)) = 1 \<and>
   bucket_in (TIMER1_COMPA_vect culfw_config (silence_state STATE_COLLECT 2 0 0)) = 1 \<and>
   byteidx (bucket_at (silence_state STATE_COLLECT 1 0 0)
              (unat (bucket_in (silence_state STATE_COLLECT 1 0 0)))) < 2 \<and>
   bucket_nrused (silence_state STATE_COLLECT 1 0 0) = 0 \<and>
   \<not> published culfw_config (silence_state STATE_COLLECT 1 0 0)
     (TIMER1_COMPA_vect culfw_config (silence_state STATE_COLLECT 1 0 0)) \<and>
   discarded (silence_state STATE_COLLECT 1 0 0)
     (TIMER1_COMPA_vect culfw_config (silence_state STATE_COLLECT 1 0 0)) \<and>
   RfAnalyze_Task culfw_config rep_in (TIMER1_COMPA_vect culfw_config (silence_state STATE_COLLECT 1 0 0))
     = monitor culfw_config rep_in (TIMER1_COMPA_vect culfw_config (silence_state STATE_COLLECT 1 0 0)) \<and>
   out_log (RfAnalyze_Task culfw_config rep_in
              (TIMER1_COMPA_vect culfw_config (silence_state STATE_COLLECT 1 0 0))) = []"
proof -
  have a: "STATE_COLLECT \<le> state (bucket_at (silence_state STATE_COLLECT 2 0 0)
                (unat (bucket_in (silence_state STATE_COLLECT 2 0 0))))"
          "2 \<le> byteidx (bucket_at (silence_state STATE_COLLECT 2 0 0)
                (unat (bucket_in (silence_state STATE_COLLECT 2 0 0))))"
          "uint (bucket_nrused (silence_state STATE_COLLECT 2 0 0)) + 1 \<noteq> int (RCV_BUCKETS culfw_config)"
    by code_simp+
  have b: "byteidx (bucket_at (silence_state STATE_COLLECT 1 0 0)
              (unat (bucket_in (silence_state STATE_COLLECT 1 0 0)))) < 2"
          "bucket_nrused (silence_state STATE_COLLECT 1 0 0) = 0"
    by code_simp+
  have c: "bucket_nrused (TIMER1_COMPA_vect culfw_config (silence_state STATE_COLLECT 2 0 0)) = 1"
          "bucket_in (TIMER1_COMPA_vect culfw_config (silence_state STATE_COLLECT 2 0 0)) = 1"
          "out_log (RfAnalyze_Task culfw_config rep_in
              (TIMER1_COMPA_vect culfw_config (silence_state STATE_COLLECT 1 0 0))) = []"
    by code_simp+
  note x = silence_publishes_iff_room [where cfg = culfw_config and s = "silence_state STATE_COLLECT 2 0 0"]
  note y = silence_publishes_iff_room [where cfg = culfw_config and s = "silence_state STATE_COLLECT 1 0 0"
              and inp = rep_in]
  from x a have p: "published culfw_config (silence_state STATE_COLLECT 2 0 0)
     (TIMER1_COMPA_vect culfw_config (silence_state STATE_COLLECT 2 0 0))"
    by blast
  from y b have d: "discarded (silence_state STATE_COLLECT 1 0 0)
     (TIMER1_COMPA_vect culfw_config (silence_state STATE_COLLECT 1 0 0))"
    "RfAnalyze_Task culfw_config rep_in (TIMER1_COMPA_vect culfw_config (silence_state STATE_COLLECT 1 0 0))
     = monitor culfw_config rep_in (TIMER1_COMPA_vect culfw_config (silence_state STATE_COLLECT 1 0 0))"
    by blast+
  have "\<not> 2 \<le> byteidx (bucket_at (silence_state STATE_COLLECT 1 0 0)
              (unat (bucket_in (silence_state STATE_COLLECT 1 0 0))))"
    using b(1) by (simp only: not_le)
  with y have n: "\<not> published culfw_config (silence_state STATE_COLLECT 1 0 0)
     (TIMER1_COMPA_vect culfw_config (silence_state STATE_COLLECT 1 0 0))"
    by blast
  show ?thesis
    using p d n b c by blast
qed

subsection \<open>The count of used buckets\<close>

lemma nrused_basic [simp]:
  "bucket_nrused (put_bucket s i b) = bucket_nrused s"
  "bucket_nrused (upd_bucket s i f) = bucket_nrused s"
  "bucket_nrused (reset_input s) = bucket_nrused s"
  "bucket_nrused (addbit s i v) = bucket_nrused s"
  "bucket_nrused (delbit s i) = bucket_nrused s"
  by (simp_all add: put_bucket_def upd_bucket_def reset_input_def addbit_def delbit_def Let_def)

lemma nrused_retry_sync [simp]: "bucket_nrused (retry_sync cfg i s) = bucket_nrused s"
  by (simp add: retry_sync_def Let_def)

lemma nrused_edge_it:
  "edge_it cfg i s = Inl s' \<Longrightarrow> bucket_nrused s' = bucket_nrused s"
  "edge_it cfg i s = Inr s' \<Longrightarrow> bucket_nrused s' = bucket_nrused s"
  by (auto simp: edge_it_def Let_def split: if_splits)

lemma nrused_edge_tcm97001 [simp]: "bucket_nrused (edge_tcm97001 i s) = bucket_nrused s"
  by (simp add: edge_tcm97001_def Let_def)

lemma nrused_edge_collect [simp]: "bucket_nrused (edge_collect cfg i s) = bucket_nrused s"
  by (simp add: edge_collect_def Let_def)

lemma nrused_edge_rising [simp]: "bucket_nrused (edge_rising cfg i s) = bucket_nrused s"
  by (auto simp: edge_rising_def Let_def nrused_edge_it split: sum.splits)

lemma nrused_edge: "bucket_nrused (CC1100_INTVECT cfg e s) = bucket_nrused s"
  by (simp add: CC1100_INTVECT_def Let_def)

lemma nrused_silence:
  "bucket_nrused (TIMER1_COMPA_vect cfg s) =
     (if STATE_COLLECT \<le> state (bucket_at s (unat (bucket_in s))) \<and>
         2 \<le> byteidx (bucket_at s (unat (bucket_in s))) \<and>
         uint (bucket_nrused s) + 1 \<noteq> int (RCV_BUCKETS cfg)
      then bucket_nrused s + 1 else bucket_nrused s)"
  by (auto simp: TIMER1_COMPA_vect_def Let_def bucket_at_def not_less not_le)

lemma nrused_scratch_steps [simp]:
  "bucket_nrused (snd (step_it cfg i x)) = bucket_nrused (snd x)"
  "bucket_nrused (snd (step_tcm97001 cfg i x)) = bucket_nrused (snd x)"
  "bucket_nrused (snd (step_revolt cfg i x)) = bucket_nrused (snd x)"
  "bucket_nrused (snd (step_esa cfg i x)) = bucket_nrused (snd x)"
  "bucket_nrused (snd (step_hms cfg i x)) = bucket_nrused (snd x)"
  "bucket_nrused (snd (step_tx3 cfg i x)) = bucket_nrused (snd x)"
  using scratch_only_fields(2) [OF analyze_it_scratch [of "snd x" "bucket_at (snd x) i"]]
        scratch_only_fields(2) [OF analyze_tcm97001_scratch [of "snd x" "bucket_at (snd x) i"]]
        scratch_only_fields(2) [OF analyze_revolt_scratch [of "snd x" "bucket_at (snd x) i"]]
        scratch_only_fields(2) [OF analyze_esa_scratch [of "snd x" cfg "bucket_at (snd x) i"]]
        scratch_only_fields(2) [OF analyze_hms_scratch [of "snd x" "bucket_at (snd x) i"]]
        scratch_only_fields(2) [OF analyze_TX3_scratch [of "snd x" "bucket_at (snd x) i"]]
  by (simp_all add: step_it_def step_tcm97001_def step_revolt_def step_esa_def step_hms_def
        step_tx3_def Let_def split_beta)

lemma nrused_analyze [simp]: "bucket_nrused (snd (analyze cfg b t s)) = bucket_nrused s"
  by (rule scratch_only_fields(2) [OF analyze_scratch])

lemma nrused_copy_loop [simp]: "bucket_nrused (copy_loop d lim s) = bucket_nrused s"
  by (rule scratch_only_fields(2) [OF copy_loop_scratch])

lemma nrused_analyze_steps [simp]:
  "bucket_nrused (snd (step_fs20 cfg i x)) = bucket_nrused (snd x)"
  "bucket_nrused (snd (step_em cfg i x)) = bucket_nrused (snd x)"
  "bucket_nrused (snd (step_ks300 cfg i x)) = bucket_nrused (snd x)"
  "bucket_nrused (snd (step_hoermann cfg i x)) = bucket_nrused (snd x)"
  by (simp_all add: step_fs20_def step_em_def step_ks300_def step_hoermann_def Let_def split_beta)

lemma nrused_dispatch: "bucket_nrused (snd (dispatch cfg i s)) = bucket_nrused s"
  by (simp add: dispatch_def Let_def)

lemma nrused_repeat_check: "bucket_nrused (repeat_check cfg now s) = bucket_nrused s"
proof -
  have c: "bucket_nrused (compare_loop t) = bucket_nrused t" for t
    using compare_loop_frame [of t] by auto
  have v: "bucket_nrused (save_loop t) = bucket_nrused t" for t
    using save_loop_frame [of t] by auto
  show ?thesis
    by (simp add: repeat_check_def Let_def c v)
qed

lemma nrused_report: "bucket_nrused (report cfg inp dt s) = bucket_nrused s"
  by (simp add: report_def emit_message_def checkForRepeatedPackage_def fht_protocol_check_def
        nrused_repeat_check Let_def)

lemma nrused_monitor: "bucket_nrused (monitor cfg inp s) = bucket_nrused s"
  by (simp add: monitor_def Let_def)

lemma nrused_dump_bucket: "bucket_nrused (dump_bucket cfg inp i s) = bucket_nrused s"
  by (simp add: dump_bucket_def Let_def)

lemma nrused_release_bucket: "bucket_nrused (release_bucket cfg i s) = bucket_nrused s - 1"
  by (simp add: release_bucket_def Let_def)

lemma nrused_task:
  "bucket_nrused (RfAnalyze_Task cfg inp s) =
     (if bucket_nrused s = 0 then 0 else bucket_nrused s - 1)"
proof -
  obtain dt s2 where d: "dispatch cfg (unat (bucket_out (monitor cfg inp s))) (monitor cfg inp s) = (dt, s2)"
    by (cases "dispatch cfg (unat (bucket_out (monitor cfg inp s))) (monitor cfg inp s)") auto
  have "bucket_nrused s2 = bucket_nrused s"
    using nrused_dispatch [of cfg "unat (bucket_out (monitor cfg inp s))" "monitor cfg inp s"]
    by (simp add: d nrused_monitor)
  then show ?thesis
    by (simp add: RfAnalyze_Task_def Let_def d nrused_monitor nrused_release_bucket
          nrused_dump_bucket nrused_report)
qed

lemma nrused_below:
  assumes "reachable cfg s" "0 < RCV_BUCKETS cfg"
  shows "unat (bucket_nrused s) < RCV_BUCKETS cfg"
  using assms
proof (induction rule: reachable.induct)
  case start
  then show ?case by (simp add: init_state_def)
next
  case (edge s e)
  then show ?case by (simp add: nrused_edge)
next
  case (silence s)
  then have b: "unat (bucket_nrused s) < RCV_BUCKETS cfg" by simp
  show ?case
  proof (cases "uint (bucket_nrused s) + 1 = int (RCV_BUCKETS cfg)")
    case True
    with b show ?thesis by (simp add: nrused_silence)
  next
    case False
    have "unat (bucket_nrused s) + 1 \<noteq> RCV_BUCKETS cfg"
    proof
      assume "unat (bucket_nrused s) + 1 = RCV_BUCKETS cfg"
      then have "int (unat (bucket_nrused s) + 1) = int (RCV_BUCKETS cfg)" by (simp only:)
      then have "uint (bucket_nrused s) + 1 = int (RCV_BUCKETS cfg)" by simp
      with False show False by simp
    qed
    with b have "unat (bucket_nrused s) + 1 < RCV_BUCKETS cfg" by simp
    moreover have "unat (bucket_nrused s + 1) \<le> unat (bucket_nrused s) + 1"
      by (simp add: unat_word_ariths) 
    ultimately show ?thesis using b by (simp add: nrused_silence)
  qed
next
  case (task s inp)
  then have b: "unat (bucket_nrused s) < RCV_BUCKETS cfg" by simp
  have "unat (bucket_nrused s - 1) \<le> unat (bucket_nrused s)" if "bucket_nrused s \<noteq> 0"
    using that by unat_arith
  with b task.prems show ?case by (auto simp: nrused_task)
next
  case (set_txreport s v)
  then show ?case by simp
qed

lemma reachable_edges: "reachable cfg s \<Longrightarrow> reachable cfg (edges cfg es s)"
  unfolding edges_def
  by (induction es arbitrary: s) (auto intro: reachable.edge)

lemma silence_discards:
  assumes "uint (bucket_nrused s) + 1 = int (RCV_BUCKETS cfg)"
  shows "discarded s (TIMER1_COMPA_vect cfg s)"
  using assms
  by (auto simp: TIMER1_COMPA_vect_def Let_def discarded_def bucket_at_def reset_input_def
        put_bucket_def)

text \<open>
  C8.  In every state that the edge interrupt, the compare interrupt and the
  task (and a new \<open>tx_report\<close>) lead to from the initial state, with at least
  one bucket configured, \<open>bucket_nrused\<close> is between 0 and \<open>RCV_BUCKETS\<close>; it
  even stays below \<open>RCV_BUCKETS\<close>.  From any state \<open>t\<close>: the edge interrupt
  leaves the count as it is; the compare interrupt adds one only when
  \<open>bucket_nrused + 1\<close> is not \<open>RCV_BUCKETS\<close> (and the bucket is one to publish),
  and when \<open>bucket_nrused + 1\<close> is \<open>RCV_BUCKETS\<close> it discards the bucket it was
  filling instead; the task takes one off only when it finds the count other
  than 0.
\<close>

theorem bucket_nrused_bounded:
  "(reachable cfg s \<and> 0 < RCV_BUCKETS cfg \<longrightarrow>
      0 \<le> uint (bucket_nrused s) \<and> uint (bucket_nrused s) \<le> int (RCV_BUCKETS cfg) \<and>
      unat (bucket_nrused s) < RCV_BUCKETS cfg) \<and>
   bucket_nrused (CC1100_INTVECT cfg e t) = bucket_nrused t \<and>
   bucket_nrused (TIMER1_COMPA_vect cfg t) =
     (if STATE_COLLECT \<le> state (bucket_at t (unat (bucket_in t))) \<and>
         2 \<le> byteidx (bucket_at t (unat (bucket_in t))) \<and>
         uint (bucket_nrused t) + 1 \<noteq> int (RCV_BUCKETS cfg)
      then bucket_nrused t + 1 else bucket_nrused t) \<and>
   (uint (bucket_nrused t) + 1 = int (RCV_BUCKETS cfg) \<longrightarrow>
      discarded t (TIMER1_COMPA_vect cfg t)) \<and>
   bucket_nrused (RfAnalyze_Task cfg inp t) =
     (if bucket_nrused t = 0 then 0 else bucket_nrused t - 1)"
proof -
  have "unat (bucket_nrused s) < RCV_BUCKETS cfg"
    if "reachable cfg s" "0 < RCV_BUCKETS cfg"
    using that by (rule nrused_below)
  moreover have "uint (bucket_nrused s) \<le> int (RCV_BUCKETS cfg)"
    if "unat (bucket_nrused s) < RCV_BUCKETS cfg"
  proof -
    from that have "int (unat (bucket_nrused s)) \<le> int (RCV_BUCKETS cfg)" by (simp only: of_nat_le_iff)
    then show ?thesis by simp
  qed
  ultimately show ?thesis
    using nrused_edge [of cfg e t] nrused_silence [of cfg t] nrused_task [of cfg inp t]
      silence_discards [of t cfg]
    by (simp del: of_nat_unat)
qed

theorem bucket_nrused_bounded_witness:
  "reachable culfw_config (TIMER1_COMPA_vect culfw_config train_state) \<and>
   0 < RCV_BUCKETS culfw_config \<and>
   bucket_nrused train_state = 0 \<and>
   bucket_nrused (TIMER1_COMPA_vect culfw_config train_state) = 1 \<and>
   unat (bucket_nrused (TIMER1_COMPA_vect culfw_config train_state)) < RCV_BUCKETS culfw_config \<and>
   bucket_nrused (RfAnalyze_Task culfw_config rep_in (TIMER1_COMPA_vect culfw_config train_state)) = 0 \<and>
   uint (bucket_nrused (silence_state STATE_HMS 2 3 1)) + 1 = int (RCV_BUCKETS culfw_config) \<and>
   discarded (silence_state STATE_HMS 2 3 1)
     (TIMER1_COMPA_vect culfw_config (silence_state STATE_HMS 2 3 1)) \<and>
   bucket_nrused (TIMER1_COMPA_vect culfw_config (silence_state STATE_HMS 2 3 1)) = 3"
proof -
  have r: "reachable culfw_config (TIMER1_COMPA_vect culfw_config train_state)"
    unfolding train_state_def
    by (intro reachable.silence reachable_edges reachable.start)
  have c: "0 < RCV_BUCKETS culfw_config"
    "bucket_nrused train_state = 0"
    "bucket_nrused (TIMER1_COMPA_vect culfw_config train_state) = 1"
    "uint (bucket_nrused (silence_state STATE_HMS 2 3 1)) + 1 = int (RCV_BUCKETS culfw_config)"
    "bucket_nrused (TIMER1_COMPA_vect culfw_config (silence_state STATE_HMS 2 3 1)) = 3"
    by code_simp+
  note a = bucket_nrused_bounded [where cfg = culfw_config
             and s = "TIMER1_COMPA_vect culfw_config train_state"
             and t = "TIMER1_COMPA_vect culfw_config train_state" and inp = rep_in]
  note b = bucket_nrused_bounded [where cfg = culfw_config and t = "silence_state STATE_HMS 2 3 1"]
  from a r c(1) have 1: "unat (bucket_nrused (TIMER1_COMPA_vect culfw_config train_state))
                           < RCV_BUCKETS culfw_config"
    by blast
  from a c(3) have 2: "bucket_nrused (RfAnalyze_Task culfw_config rep_in
                          (TIMER1_COMPA_vect culfw_config train_state)) = 0"
    by simp
  from b c(4) have 3: "discarded (silence_state STATE_HMS 2 3 1)
     (TIMER1_COMPA_vect culfw_config (silence_state STATE_HMS 2 3 1))"
    by blast
  show ?thesis
    using r c 1 2 3 by blast
qed

end
